theory Spec2Isabelle
  imports Main "HOL-Library.Sublist"
begin

section \<open>The URL engine as seen by trurl.c\<close>

text \<open>
  trurl.c drives libcurl's URL API (\<^verbatim>\<open>curl_url\<close>, \<^verbatim>\<open>curl_url_set\<close>,
  \<^verbatim>\<open>curl_url_get\<close>, \<^verbatim>\<open>curl_url_strerror\<close>). The library is not part of the
  repository, so it is a parameter of every function below: a record of the four
  entry points, over an arbitrary type \<open>'h\<close> of handle states.
\<close>

datatype CURLUPart =
    CURLUPART_URL | CURLUPART_SCHEME | CURLUPART_USER | CURLUPART_PASSWORD
  | CURLUPART_OPTIONS | CURLUPART_HOST | CURLUPART_PORT | CURLUPART_PATH
  | CURLUPART_QUERY | CURLUPART_FRAGMENT | CURLUPART_ZONEID

datatype CURLUcode =
    CURLUE_OK | CURLUE_BAD_HANDLE | CURLUE_BAD_PARTPOINTER | CURLUE_MALFORMED_INPUT
  | CURLUE_BAD_PORT_NUMBER | CURLUE_UNSUPPORTED_SCHEME | CURLUE_URLDECODE
  | CURLUE_OUT_OF_MEMORY | CURLUE_USER_NOT_ALLOWED | CURLUE_UNKNOWN_PART
  | CURLUE_NO_SCHEME | CURLUE_NO_USER | CURLUE_NO_PASSWORD | CURLUE_NO_OPTIONS
  | CURLUE_NO_HOST | CURLUE_NO_PORT | CURLUE_NO_QUERY | CURLUE_NO_FRAGMENT
  | CURLUE_NO_ZONEID

datatype CURLUflag =
    CURLU_DEFAULT_PORT | CURLU_URLDECODE | CURLU_URLENCODE
  | CURLU_GUESS_SCHEME | CURLU_NON_SUPPORT_SCHEME

text \<open>
  \<open>curl_url\<close> is \<open>None\<close> when the allocation fails (the C call returns NULL).
  \<open>curl_url_set\<close> returns its result code and the handle as it is after the call.
  \<open>curl_url_get\<close> returns its result code and the value the out-pointer holds
  after the call; \<open>None\<close> is a pointer that is NULL or was never written.
  A flag word is the set of the bits or-ed together.
\<close>

record 'h engine =
  curl_url :: "'h option"
  curl_url_set :: "'h \<Rightarrow> CURLUPart \<Rightarrow> string \<Rightarrow> CURLUflag set \<Rightarrow> CURLUcode \<times> 'h"
  curl_url_get :: "'h \<Rightarrow> CURLUPart \<Rightarrow> CURLUflag set \<Rightarrow> CURLUcode \<times> string option"
  curl_url_strerror :: "CURLUcode \<Rightarrow> string"

section \<open>Process state and outcomes\<close>

text \<open>
  The two output streams are the only process state the functions share.
  A call either returns, or leaves the process through \<^verbatim>\<open>exit\<close> (the exit code and
  the streams at that moment), or runs into behaviour the C language leaves undefined
  (a string read through a pointer that holds no string, an index before the start of
  a buffer).
\<close>

record io =
  stdout :: string
  stderr :: string

datatype 'a outcome = Return 'a | Exit nat io | Undefined

definition fputc_stdout :: "char \<Rightarrow> io \<Rightarrow> io" where
  "fputc_stdout c s = s\<lparr>stdout := stdout s @ [c]\<rparr>"

definition fputs_stdout :: "string \<Rightarrow> io \<Rightarrow> io" where
  "fputs_stdout str s = s\<lparr>stdout := stdout s @ str\<rparr>"

definition fputs_stderr :: "string \<Rightarrow> io \<Rightarrow> io" where
  "fputs_stderr str s = s\<lparr>stderr := stderr s @ str\<rparr>"

definition PROGNAME :: string where
  "PROGNAME = ''trurl''"

definition ERROR_PREFIX :: string where
  "ERROR_PREFIX = PROGNAME @ '' error: ''"

definition ERROR_FILE :: nat where "ERROR_FILE = 1"
definition ERROR_APPEND :: nat where "ERROR_APPEND = 2"
definition ERROR_ARG :: nat where "ERROR_ARG = 3"
definition ERROR_FLAG :: nat where "ERROR_FLAG = 4"
definition ERROR_SET :: nat where "ERROR_SET = 5"
definition ERROR_MEM :: nat where "ERROR_MEM = 6"
definition ERROR_URL :: nat where "ERROR_URL = 7"

text \<open>
  \<^verbatim>\<open>errorf\<close> (lines 80-89) prints the prefixed message and the help hint on stderr
  and calls \<^verbatim>\<open>exit(exit_code)\<close>: it never returns. The caller passes the message
  with its \<^verbatim>\<open>%s\<close> already filled in.
\<close>

definition errorf :: "nat \<Rightarrow> string \<Rightarrow> io \<Rightarrow> 'a outcome" where
  "errorf exit_code msg s =
     Exit exit_code
       (fputs_stderr ([CHR 0x0A] @ ERROR_PREFIX @ ''Try '' @ PROGNAME @ '' -h for help'' @ [CHR 0x0A])
         (fputs_stderr msg (fputs_stderr ERROR_PREFIX s)))"

section \<open>The component table and the name comparison\<close>

definition NUM_COMPONENTS :: nat where
  "NUM_COMPONENTS = 11"

definition variables :: "(string \<times> CURLUPart) list" where
  "variables =
     [(''url'', CURLUPART_URL),
      (''scheme'', CURLUPART_SCHEME),
      (''user'', CURLUPART_USER),
      (''password'', CURLUPART_PASSWORD),
      (''options'', CURLUPART_OPTIONS),
      (''host'', CURLUPART_HOST),
      (''port'', CURLUPART_PORT),
      (''path'', CURLUPART_PATH),
      (''query'', CURLUPART_QUERY),
      (''fragment'', CURLUPART_FRAGMENT),
      (''zoneid'', CURLUPART_ZONEID)]"

text \<open>
  \<^verbatim>\<open>tolower\<close> in the C locale (the program never calls \<^verbatim>\<open>setlocale\<close>): the
  bytes 65..90 move up by 32, every other byte is kept.
\<close>

definition tolower :: "char \<Rightarrow> char" where
  "tolower c =
     (let n = (of_char c :: nat) in if 65 \<le> n \<and> n \<le> 90 then char_of (n + 32) else c)"

text \<open>
  \<open>strncasecmp_eq s1 s2 n\<close> is the test \<^verbatim>\<open>!strncasecmp(s1, s2, n)\<close>. The strings
  are given without their terminating NUL, so comparing at most \<open>n\<close> bytes, and no
  further than the end of either string, compares the two \<open>take n\<close> prefixes.
\<close>

definition strncasecmp_eq :: "string \<Rightarrow> string \<Rightarrow> nat \<Rightarrow> bool" where
  "strncasecmp_eq s1 s2 n = (map tolower (take n s1) = map tolower (take n s2))"

text \<open>
  \<^verbatim>\<open>strchr\<close>: the offset of the first occurrence, \<open>None\<close> for the NULL result.
\<close>

definition strchr :: "string \<Rightarrow> char \<Rightarrow> nat option" where
  "strchr s c = (if c \<in> set s then Some (length (takeWhile (\<lambda>x. x \<noteq> c) s)) else None)"

text \<open>
  The test both lookup loops apply to table entry \<open>name\<close> (lines 318-319 and
  395-396): the length is compared first, then the bytes without regard to case.
\<close>

definition var_match :: "string \<Rightarrow> string \<Rightarrow> nat \<Rightarrow> bool" where
  "var_match ptr name vlen = (length name = vlen \<and> strncasecmp_eq ptr name vlen)"

section \<open>The options\<close>

text \<open>
  \<^verbatim>\<open>struct option\<close> (lines 126-137). The field \<^verbatim>\<open>format\<close> is named
  \<open>get_format\<close> here, since \<open>format\<close> is also the name of a function. The field
  \<open>url\<close> is the stream opened by \<^verbatim>\<open>--url-file\<close>, as the bytes not yet read from
  it. The field \<^verbatim>\<open>output\<close> is never read by the program and is left out.
\<close>

record opt =
  url_list :: "string list"
  append_path :: "string list"
  append_query :: "string list"
  set_list :: "string list"
  redirect :: "string option"
  get_format :: "string option"
  url :: "string option"
  urlopen :: bool
  urldecode :: bool

section \<open>set (lines 376-414)\<close>

text \<open>
  The inner loop over the table (lines 394-407), with \<open>i\<close> the index of the head of
  the remaining table. Running off the end of the table is \<^verbatim>\<open>!found\<close> (line 408).
  The result code of \<^verbatim>\<open>curl_url_set\<close> is not looked at.
\<close>

fun set_vars ::
  "'h engine \<Rightarrow> string \<Rightarrow> nat \<Rightarrow> bool \<Rightarrow> string \<Rightarrow> (string \<times> CURLUPart) list \<Rightarrow> nat
     \<Rightarrow> bool list \<Rightarrow> 'h \<Rightarrow> io \<Rightarrow> ('h \<times> bool list) outcome" where
  "set_vars eng set_arg vlen urlencode val [] i varset uh s =
     errorf ERROR_SET (''Set unknown component: '' @ set_arg) s"
| "set_vars eng set_arg vlen urlencode val ((name, part) # vs) i varset uh s =
     (if var_match set_arg name vlen then
        (if varset ! i then
           errorf ERROR_SET (''A component can only be set once per URL ('' @ name @ '')'') s
         else
           Return (snd (curl_url_set eng uh part val
                          ({CURLU_NON_SUPPORT_SCHEME} \<union>
                           (if urlencode then {CURLU_URLENCODE} else {}))),
                   varset[i := True]))
      else set_vars eng set_arg vlen urlencode val vs (Suc i) varset uh s)"

text \<open>
  Lines 385-393 on one \<^verbatim>\<open>--set\<close> argument: the offset of the first \<^verbatim>\<open>=\<close>
  must exist and not be 0; a \<^verbatim>\<open>:\<close> right before it turns the encoding off and
  is not part of the name. The result is \<^verbatim>\<open>vlen\<close>, \<^verbatim>\<open>urlencode\<close> and the
  string at \<^verbatim>\<open>ptr+1\<close>; \<open>None\<close> is the branch of line 412.
\<close>

definition set_split :: "string \<Rightarrow> (nat \<times> bool \<times> string) option" where
  "set_split set_arg =
     (case strchr set_arg (CHR ''='') of
        None \<Rightarrow> None
      | Some p \<Rightarrow>
          if 0 < p then
            (let urlencode = (set_arg ! (p - 1) \<noteq> CHR '':'');
                 vlen = (if urlencode then p else p - 1)
             in Some (vlen, urlencode, drop (Suc p) set_arg))
          else None)"

text \<open>The outer loop over \<^verbatim>\<open>o->set_list\<close> (lines 382-413).\<close>

fun set_nodes :: "'h engine \<Rightarrow> string list \<Rightarrow> bool list \<Rightarrow> 'h \<Rightarrow> io \<Rightarrow> 'h outcome" where
  "set_nodes eng [] varset uh s = Return uh"
| "set_nodes eng (set_arg # rest) varset uh s =
     (case set_split set_arg of
        None \<Rightarrow> errorf ERROR_SET (''invalid --set syntax: '' @ set_arg) s
      | Some (vlen, urlencode, val) \<Rightarrow>
          (case set_vars eng set_arg vlen urlencode val variables 0 varset uh s of
             Return (uh', varset') \<Rightarrow> set_nodes eng rest varset' uh' s
           | Exit c s' \<Rightarrow> Exit c s'
           | Undefined \<Rightarrow> Undefined))"

definition set_opts :: "'h engine \<Rightarrow> 'h \<Rightarrow> opt \<Rightarrow> io \<Rightarrow> 'h outcome" where
  "set_opts eng uh o_arg s =
     set_nodes eng (set_list o_arg) (replicate NUM_COMPONENTS False) uh s"

section \<open>format (lines 292-374)\<close>

text \<open>
  Lines 320-343, for a table entry that passed the test: the component is fetched and
  the \<^verbatim>\<open>switch\<close> acts on the result code. \<^verbatim>\<open>CURLUE_OK\<close> prints the value and
  falls through to the \<^verbatim>\<open>break\<close> of the nine \<^verbatim>\<open>CURLUE_NO_\<close> codes; any other
  code prints a diagnostic on stderr.
\<close>

definition format_var ::
  "'h engine \<Rightarrow> bool \<Rightarrow> 'h \<Rightarrow> string \<Rightarrow> CURLUPart \<Rightarrow> io \<Rightarrow> io outcome" where
  "format_var eng dec uh name part s =
     (case curl_url_get eng uh part
             ({CURLU_DEFAULT_PORT} \<union> (if dec then {CURLU_URLDECODE} else {})) of
        (rc, nurl) \<Rightarrow>
          if rc = CURLUE_OK then
            (case nurl of
               None \<Rightarrow> Undefined
             | Some v \<Rightarrow> Return (fputs_stdout v s))
          else if rc \<in> {CURLUE_NO_SCHEME, CURLUE_NO_USER, CURLUE_NO_PASSWORD,
                         CURLUE_NO_OPTIONS, CURLUE_NO_HOST, CURLUE_NO_PORT,
                         CURLUE_NO_QUERY, CURLUE_NO_FRAGMENT, CURLUE_NO_ZONEID} then
            Return s
          else
            Return (fputs_stderr (PROGNAME @ '': '' @ curl_url_strerror eng rc @
                                  '' ('' @ name @ '')'' @ [CHR 0x0A]) s))"

text \<open>
  The inner loop over the table (lines 317-345). It has no \<^verbatim>\<open>break\<close>: every
  entry is tried.
\<close>

fun format_vars ::
  "'h engine \<Rightarrow> bool \<Rightarrow> 'h \<Rightarrow> string \<Rightarrow> nat \<Rightarrow> (string \<times> CURLUPart) list \<Rightarrow> io \<Rightarrow> io outcome" where
  "format_vars eng dec uh ptr vlen [] s = Return s"
| "format_vars eng dec uh ptr vlen ((name, part) # vs) s =
     (if var_match ptr name vlen then
        (case format_var eng dec uh name part s of
           Return s' \<Rightarrow> format_vars eng dec uh ptr vlen vs s'
         | Exit x s' \<Rightarrow> Exit x s'
         | Undefined \<Rightarrow> Undefined)
      else format_vars eng dec uh ptr vlen vs s)"

text \<open>
  The \<^verbatim>\<open>while\<close> loop (lines 298-372) on the rest of the template. The flag
  \<^verbatim>\<open>done\<close> is never assigned after its initialisation to false, so the loop ends
  only at the end of the template. In the first branch \<open>e\<close> is the offset of the
  first \<^verbatim>\<open>}\<close> counted from the \<^verbatim>\<open>{\<close>; when there is none, the only effect is
  \<^verbatim>\<open>ptr++\<close> followed by \<^verbatim>\<open>continue\<close> (lines 311-315).
\<close>

function format_loop :: "'h engine \<Rightarrow> bool \<Rightarrow> 'h \<Rightarrow> string \<Rightarrow> io \<Rightarrow> io outcome" where
  "format_loop eng dec uh [] s = Return s"
| "format_loop eng dec uh (c # rest) s =
     (if c = CHR ''{'' then
        (if rest \<noteq> [] \<and> hd rest = CHR ''{'' then
           format_loop eng dec uh (tl rest) (fputc_stdout (CHR ''{'') s)
         else
           (case strchr (c # rest) (CHR ''}'') of
              None \<Rightarrow> format_loop eng dec uh rest s
            | Some e \<Rightarrow>
                (case format_vars eng dec uh rest (e - 1) variables s of
                   Return s' \<Rightarrow> format_loop eng dec uh (drop (Suc e) (c # rest)) s'
                 | Exit x s' \<Rightarrow> Exit x s'
                 | Undefined \<Rightarrow> Undefined)))
      else if c = CHR 0x5C \<and> rest \<noteq> [] then
        format_loop eng dec uh (tl rest)
          (if hd rest = CHR ''r'' then fputc_stdout (CHR 0x0D) s
           else if hd rest = CHR ''n'' then fputc_stdout (CHR 0x0A) s
           else if hd rest = CHR ''t'' then fputc_stdout (CHR 0x09) s
           else fputc_stdout (hd rest) (fputc_stdout c s))
      else format_loop eng dec uh rest (fputc_stdout c s))"
  by pat_completeness auto
termination
  by (relation "measure (\<lambda>(eng, dec, uh, ptr, s). length ptr)") auto

text \<open>The loop is skipped when \<^verbatim>\<open>op->format\<close> is NULL; the newline is always written.\<close>

definition format :: "'h engine \<Rightarrow> opt \<Rightarrow> 'h \<Rightarrow> io \<Rightarrow> io outcome" where
  "format eng op uh s =
     (case (case get_format op of
              None \<Rightarrow> Return s
            | Some ptr \<Rightarrow> format_loop eng (urldecode op) uh ptr s) of
        Return s' \<Rightarrow> Return (fputc_stdout (CHR 0x0A) s')
      | Exit x s' \<Rightarrow> Exit x s'
      | Undefined \<Rightarrow> Undefined)"

section \<open>singleurl (lines 416-493)\<close>

text \<open>
  Lines 423-429: the base URL and the redirect. The redirect is set inside the
  \<^verbatim>\<open>if(url)\<close> block. Neither result code is looked at.
\<close>

definition set_base :: "'h engine \<Rightarrow> opt \<Rightarrow> string option \<Rightarrow> 'h \<Rightarrow> 'h" where
  "set_base eng o_arg url_arg uh =
     (case url_arg of
        None \<Rightarrow> uh
      | Some u \<Rightarrow>
          (let uh' = snd (curl_url_set eng uh CURLUPART_URL u
                            {CURLU_GUESS_SCHEME, CURLU_NON_SUPPORT_SCHEME})
           in case redirect o_arg of
                None \<Rightarrow> uh'
              | Some r \<Rightarrow> snd (curl_url_set eng uh' CURLUPART_URL r
                                  {CURLU_GUESS_SCHEME, CURLU_NON_SUPPORT_SCHEME})))"

text \<open>
  Lines 434-456: the path segments. The result code of \<^verbatim>\<open>curl_url_get\<close> is not
  looked at and \<^verbatim>\<open>opath\<close> is used as it is: \<^verbatim>\<open>strlen(opath)\<close> needs a string, and
  \<^verbatim>\<open>opath[olen-1]\<close> with \<^verbatim>\<open>olen\<close> zero reads before the start of the string.
  The result code of \<^verbatim>\<open>curl_url_set\<close> is not looked at either. (A NULL result of
  \<^verbatim>\<open>curl_maprintf\<close>, which is allocation failure, is not modelled.)
\<close>

fun append_paths :: "'h engine \<Rightarrow> string list \<Rightarrow> 'h \<Rightarrow> 'h outcome" where
  "append_paths eng [] uh = Return uh"
| "append_paths eng (apath # ps) uh =
     (case snd (curl_url_get eng uh CURLUPART_PATH {}) of
        None \<Rightarrow> Undefined
      | Some opath \<Rightarrow>
          if opath = [] then Undefined
          else
            (let npath = opath @ (if last opath = CHR ''/'' then [] else ''/'') @ apath
             in append_paths eng ps (snd (curl_url_set eng uh CURLUPART_PATH npath {}))))"

text \<open>
  Lines 459-474: the query segments. \<^verbatim>\<open>oq\<close> is printed through \<^verbatim>\<open>%s\<close> as it
  is; the separator is part of the format string \<^verbatim>\<open>"%s&%s"\<close>.
\<close>

fun append_queries :: "'h engine \<Rightarrow> string list \<Rightarrow> 'h \<Rightarrow> 'h outcome" where
  "append_queries eng [] uh = Return uh"
| "append_queries eng (aq # qs) uh =
     (case snd (curl_url_get eng uh CURLUPART_QUERY {}) of
        None \<Rightarrow> Undefined
      | Some oq \<Rightarrow>
          (let nq = oq @ ''&'' @ aq
           in append_queries eng qs (snd (curl_url_set eng uh CURLUPART_QUERY nq {}))))"

text \<open>Lines 476-491: the output of one URL.\<close>

definition output_url :: "'h engine \<Rightarrow> opt \<Rightarrow> 'h \<Rightarrow> io \<Rightarrow> io outcome" where
  "output_url eng o_arg uh s =
     (if get_format o_arg \<noteq> None then format eng o_arg uh s
      else
        (case curl_url_get eng uh CURLUPART_URL
                (if urldecode o_arg then {CURLU_URLDECODE} else {}) of
           (rc, nurl) \<Rightarrow>
             if rc = CURLUE_OK then
               (case nurl of
                  None \<Rightarrow> Undefined
                | Some v \<Rightarrow> Return (fputs_stdout (v @ [CHR 0x0A]) s))
             else errorf ERROR_URL ''not enough input for a URL'' s))"

text \<open>Lines 431-491, everything after the base URL, on the handle \<open>uh\<close>.\<close>

definition mutate_and_output :: "'h engine \<Rightarrow> opt \<Rightarrow> 'h \<Rightarrow> io \<Rightarrow> io outcome" where
  "mutate_and_output eng o_arg uh s =
     (case set_opts eng uh o_arg s of
        Exit x s' \<Rightarrow> Exit x s'
      | Undefined \<Rightarrow> Undefined
      | Return uh1 \<Rightarrow>
          (case append_paths eng (append_path o_arg) uh1 of
             Exit x s' \<Rightarrow> Exit x s'
           | Undefined \<Rightarrow> Undefined
           | Return uh2 \<Rightarrow>
               (case append_queries eng (append_query o_arg) uh2 of
                  Exit x s' \<Rightarrow> Exit x s'
                | Undefined \<Rightarrow> Undefined
                | Return uh3 \<Rightarrow> output_url eng o_arg uh3 s)))"

definition singleurl :: "'h engine \<Rightarrow> opt \<Rightarrow> string option \<Rightarrow> io \<Rightarrow> io outcome" where
  "singleurl eng o_arg url_arg s =
     (case curl_url eng of
        None \<Rightarrow> errorf ERROR_MEM ''out of memory'' s
      | Some uh \<Rightarrow> mutate_and_output eng o_arg (set_base eng o_arg url_arg uh) s)"

section \<open>main, after the command line is parsed (lines 527-558)\<close>

text \<open>
  \<^verbatim>\<open>fgets(buffer, sizeof(buffer), o.url)\<close> with the 4096-byte buffer: at most 4095
  bytes, stopping after a newline; NULL at the end of the stream. The result is the
  bytes stored and the rest of the stream.
\<close>

definition fgets :: "string \<Rightarrow> (string \<times> string) option" where
  "fgets stream =
     (if stream = [] then None
      else
        (let n = min 4095 (Suc (length (takeWhile (\<lambda>c. c \<noteq> CHR 0x0A) stream)))
         in Some (take n stream, drop n stream)))"

text \<open>
  Lines 531-541 on the bytes \<^verbatim>\<open>fgets\<close> stored: the buffer is read as a C string, so
  it ends at the first NUL byte. The result is the URL handed to \<^verbatim>\<open>singleurl\<close>, or
  \<open>None\<close> when the chunk is skipped.
\<close>

definition line_url :: "string \<Rightarrow> string option" where
  "line_url chunk =
     (let buffer = takeWhile (\<lambda>c. c \<noteq> CHR 0x00) chunk
      in case strchr buffer (CHR 0x0A) of
           None \<Rightarrow> None
         | Some eol \<Rightarrow>
             if 0 < eol then
               Some (take (if buffer ! (eol - 1) = CHR 0x0D then eol - 1 else eol) buffer)
             else None)"

function urlfile_loop :: "'h engine \<Rightarrow> opt \<Rightarrow> string \<Rightarrow> io \<Rightarrow> io outcome" where
  "urlfile_loop eng o_arg stream s =
     (case fgets stream of
        None \<Rightarrow> Return s
      | Some (chunk, stream') \<Rightarrow>
          (case line_url chunk of
             None \<Rightarrow> urlfile_loop eng o_arg stream' s
           | Some u \<Rightarrow>
               (case singleurl eng o_arg (Some u) s of
                  Return s' \<Rightarrow> urlfile_loop eng o_arg stream' s'
                | Exit x s' \<Rightarrow> Exit x s'
                | Undefined \<Rightarrow> Undefined)))"
  by pat_completeness auto
termination
  by (relation "measure (\<lambda>(eng, o_arg, stream, s). length stream)")
     (auto simp: fgets_def Let_def split: if_splits)

declare urlfile_loop.simps [simp del]

text \<open>
  Lines 548-557: the \<^verbatim>\<open>do ... while(node)\<close> loop over \<^verbatim>\<open>o.url_list\<close>. With an
  empty list the body runs once, with a NULL url.
\<close>

fun urllist_loop :: "'h engine \<Rightarrow> opt \<Rightarrow> string list \<Rightarrow> io \<Rightarrow> io outcome" where
  "urllist_loop eng o_arg [] s = singleurl eng o_arg None s"
| "urllist_loop eng o_arg (u # node) s =
     (case singleurl eng o_arg (Some u) s of
        Return s' \<Rightarrow> (if node \<noteq> [] then urllist_loop eng o_arg node s' else Return s')
      | Exit x s' \<Rightarrow> Exit x s'
      | Undefined \<Rightarrow> Undefined)"

text \<open>
  The run over all inputs; returning is \<^verbatim>\<open>return exit_status\<close> with the status 0.
\<close>

definition main_urls :: "'h engine \<Rightarrow> opt \<Rightarrow> io \<Rightarrow> io outcome" where
  "main_urls eng o_arg s =
     (case url o_arg of
        Some stream \<Rightarrow> urlfile_loop eng o_arg stream s
      | None \<Rightarrow> urllist_loop eng o_arg (url_list o_arg) s)"

section \<open>A small engine for concrete runs\<close>

text \<open>
  The theorems below hold for every engine. To run the functions on concrete inputs a
  deterministic stand-in is used: a handle is the list of the components that are
  set. Setting a whole URL splits \<^verbatim>\<open>scheme://host/path?query\<close> (with the scheme
  \<^verbatim>\<open>http\<close> guessed when the flag allows it); setting a port that is not a number
  fails and leaves the handle alone; any other component is stored as given.
  Getting the whole URL needs a host and a scheme; the path of a handle without one
  reads as \<^verbatim>\<open>/\<close>, every other component that is not set gives its
  \<^verbatim>\<open>CURLUE_NO_\<close> code and no string.
\<close>

type_synonym test_handle = "(CURLUPart \<times> string) list"

fun test_update :: "CURLUPart \<Rightarrow> string \<Rightarrow> test_handle \<Rightarrow> test_handle" where
  "test_update k v [] = [(k, v)]"
| "test_update k v ((k', v') # h) =
     (if k' = k then (k, v) # h else (k', v') # test_update k v h)"

fun split_scheme :: "string \<Rightarrow> (string \<times> string) option" where
  "split_scheme [] = None"
| "split_scheme (c # cs) =
     (if take 3 (c # cs) = ''://'' then Some ([], drop 3 (c # cs))
      else (case split_scheme cs of None \<Rightarrow> None | Some (a, b) \<Rightarrow> Some (c # a, b)))"

definition test_parse :: "string \<Rightarrow> CURLUflag set \<Rightarrow> test_handle option" where
  "test_parse v flags =
     (case (case split_scheme v of
              Some (sc, r) \<Rightarrow> Some (sc, r)
            | None \<Rightarrow> if CURLU_GUESS_SCHEME \<in> flags then Some (''http'', v) else None) of
        None \<Rightarrow> None
      | Some (sc, r) \<Rightarrow>
          (let ho = takeWhile (\<lambda>c. c \<noteq> CHR ''/'' \<and> c \<noteq> CHR ''?'') r;
               after = dropWhile (\<lambda>c. c \<noteq> CHR ''/'' \<and> c \<noteq> CHR ''?'') r;
               pa = takeWhile (\<lambda>c. c \<noteq> CHR ''?'') after;
               qu = dropWhile (\<lambda>c. c \<noteq> CHR ''?'') after
           in if sc = [] \<or> ho = [] then None
              else Some ([(CURLUPART_SCHEME, sc), (CURLUPART_HOST, ho)] @
                         (if pa = [] then [] else [(CURLUPART_PATH, pa)]) @
                         (if qu = [] then [] else [(CURLUPART_QUERY, tl qu)]))))"

definition test_set ::
  "test_handle \<Rightarrow> CURLUPart \<Rightarrow> string \<Rightarrow> CURLUflag set \<Rightarrow> CURLUcode \<times> test_handle" where
  "test_set h part v flags =
     (if part = CURLUPART_URL then
        (case test_parse v flags of
           None \<Rightarrow> (CURLUE_MALFORMED_INPUT, h)
         | Some h' \<Rightarrow> (CURLUE_OK, h'))
      else if part = CURLUPART_PORT \<and>
              (v = [] \<or> (\<exists>c \<in> set v. of_char c < (48::nat) \<or> (57::nat) < of_char c)) then
        (CURLUE_BAD_PORT_NUMBER, h)
      else (CURLUE_OK, test_update part v h))"

fun test_absent :: "CURLUPart \<Rightarrow> CURLUcode" where
  "test_absent CURLUPART_SCHEME = CURLUE_NO_SCHEME"
| "test_absent CURLUPART_USER = CURLUE_NO_USER"
| "test_absent CURLUPART_PASSWORD = CURLUE_NO_PASSWORD"
| "test_absent CURLUPART_OPTIONS = CURLUE_NO_OPTIONS"
| "test_absent CURLUPART_HOST = CURLUE_NO_HOST"
| "test_absent CURLUPART_PORT = CURLUE_NO_PORT"
| "test_absent CURLUPART_QUERY = CURLUE_NO_QUERY"
| "test_absent CURLUPART_FRAGMENT = CURLUE_NO_FRAGMENT"
| "test_absent CURLUPART_ZONEID = CURLUE_NO_ZONEID"
| "test_absent _ = CURLUE_UNKNOWN_PART"

definition test_get ::
  "test_handle \<Rightarrow> CURLUPart \<Rightarrow> CURLUflag set \<Rightarrow> CURLUcode \<times> string option" where
  "test_get h part flags =
     (if part = CURLUPART_URL then
        (case map_of h CURLUPART_HOST of
           None \<Rightarrow> (CURLUE_NO_HOST, None)
         | Some ho \<Rightarrow>
             (case map_of h CURLUPART_SCHEME of
                None \<Rightarrow> (CURLUE_NO_SCHEME, None)
              | Some sc \<Rightarrow>
                  (CURLUE_OK,
                   Some (sc @ ''://'' @ ho @
                         (case map_of h CURLUPART_PORT of None \<Rightarrow> [] | Some po \<Rightarrow> '':'' @ po) @
                         (case map_of h CURLUPART_PATH of None \<Rightarrow> ''/'' | Some pa \<Rightarrow> pa) @
                         (case map_of h CURLUPART_QUERY of None \<Rightarrow> [] | Some qu \<Rightarrow> ''?'' @ qu) @
                         (case map_of h CURLUPART_FRAGMENT of None \<Rightarrow> [] | Some fr \<Rightarrow> ''#'' @ fr)))))
      else if part = CURLUPART_PATH then
        (CURLUE_OK, Some (case map_of h CURLUPART_PATH of None \<Rightarrow> ''/'' | Some pa \<Rightarrow> pa))
      else
        (case map_of h part of
           None \<Rightarrow> (test_absent part, None)
         | Some v \<Rightarrow> (CURLUE_OK, Some v)))"

definition test_engine :: "test_handle engine" where
  "test_engine =
     \<lparr>curl_url = Some [], curl_url_set = test_set, curl_url_get = test_get,
      curl_url_strerror = (\<lambda>rc. ''URL error'')\<rparr>"

definition no_opts :: opt where
  "no_opts =
     \<lparr>url_list = [], append_path = [], append_query = [], set_list = [], redirect = None,
      get_format = None, url = None, urlopen = False, urldecode = False\<rparr>"

definition io0 :: io where
  "io0 = \<lparr>stdout = [], stderr = []\<rparr>"

section \<open>Notions used to state the properties\<close>

text \<open>
  The table entry at which the loop of lines 394-407 stops for the name of length
  \<open>vlen\<close> at \<open>ptr\<close>, with its index: the first entry that passes the test.
\<close>

definition find_var :: "string \<Rightarrow> nat \<Rightarrow> (nat \<times> string \<times> CURLUPart) option" where
  "find_var ptr vlen =
     List.find (\<lambda>(i, name, part). var_match ptr name vlen) (enumerate 0 variables)"

text \<open>The index of the component a \<^verbatim>\<open>--set\<close> argument is resolved to, if any.\<close>

definition set_target :: "string \<Rightarrow> nat option" where
  "set_target set_arg =
     (case set_split set_arg of
        None \<Rightarrow> None
      | Some (vlen, urlencode, val) \<Rightarrow> map_option fst (find_var set_arg vlen))"

text \<open>An engine that does what \<open>eng\<close> does but reports every set as a success.\<close>

definition hide_set_codes :: "'h engine \<Rightarrow> 'h engine" where
  "hide_set_codes eng =
     eng\<lparr>curl_url_set := \<lambda>uh part v flags. (CURLUE_OK, snd (curl_url_set eng uh part v flags))\<rparr>"

text \<open>
  The lookup as the specification words it, to be compared with the loops of the code:
  two bytes are the same letter when they are equal or one is an upper-case ASCII
  letter and the other the lower-case letter 32 above it; a key matches a name when
  both have the same length and the same letter at every position; the lookup is the
  first table entry whose name the key matches, with its index.
\<close>

definition same_letter :: "char \<Rightarrow> char \<Rightarrow> bool" where
  "same_letter a b =
     (a = b
      \<or> (65 \<le> (of_char a :: nat) \<and> (of_char a :: nat) \<le> 90 \<and> (of_char a :: nat) + 32 = of_char b)
      \<or> (65 \<le> (of_char b :: nat) \<and> (of_char b :: nat) \<le> 90 \<and> (of_char b :: nat) + 32 = of_char a))"

definition lookup_var :: "string \<Rightarrow> (nat \<times> string \<times> CURLUPart) option" where
  "lookup_var key =
     List.find (\<lambda>(i, name, part). list_all2 same_letter key name) (enumerate 0 variables)"

text \<open>
  The chunks the loop of lines 530-542 reads from a stream, one per call of
  \<^verbatim>\<open>fgets\<close>, in order.
\<close>

function chunks :: "string \<Rightarrow> string list" where
  "chunks stream =
     (case fgets stream of
        None \<Rightarrow> []
      | Some (chunk, stream') \<Rightarrow> chunk # chunks stream')"
  by pat_completeness auto
termination
  by (relation "measure length") (auto simp: fgets_def Let_def split: if_splits)

declare chunks.simps [simp del]

text \<open>
  \<^verbatim>\<open>singleurl\<close> called on each URL of a list in turn, until one call does not
  return.
\<close>

fun run_urls :: "'h engine \<Rightarrow> opt \<Rightarrow> string list \<Rightarrow> io \<Rightarrow> io outcome" where
  "run_urls eng o_arg [] s = Return s"
| "run_urls eng o_arg (u # us) s =
     (case singleurl eng o_arg (Some u) s of
        Return s' \<Rightarrow> run_urls eng o_arg us s'
      | Exit x s' \<Rightarrow> Exit x s'
      | Undefined \<Rightarrow> Undefined)"

section \<open>Shared facts\<close>

lemma takeWhile_neq_prefix:
  "c \<notin> set key \<Longrightarrow> takeWhile (\<lambda>x. x \<noteq> c) (key @ c # val) = key"
  by (induction key) auto

lemma strchr_eq_prefix:
  "c \<notin> set key \<Longrightarrow> strchr (key @ c # val) c = Some (length key)"
  by (simp add: strchr_def takeWhile_neq_prefix)

section \<open>The redirect and the base URL\<close>

lemma output_url_redirect:
  "output_url eng (o_arg\<lparr>redirect := r\<rparr>) uh s = output_url eng o_arg uh s"
  by (simp add: output_url_def format_def cong: option.case_cong)

lemma mutate_and_output_redirect:
  "mutate_and_output eng (o_arg\<lparr>redirect := r\<rparr>) uh s = mutate_and_output eng o_arg uh s"
  by (simp add: mutate_and_output_def set_opts_def output_url_redirect cong: outcome.case_cong)

text \<open>
  C3, as the code has it: the redirect is set only inside the block that sets the base
  URL. Without a base URL a run is the same as the run with no redirect at all, and
  the handle given to the set phase is the fresh one. With a base URL the redirect is
  set as the whole URL, right after the base URL and with the same two flags
  (guess-scheme, tolerate-nonstandard-scheme).
\<close>

theorem redirect_only_with_base:
  "singleurl eng o_arg None s = singleurl eng (o_arg\<lparr>redirect := None\<rparr>) None s
   \<and> set_base eng o_arg None uh = uh
   \<and> set_base eng (o_arg\<lparr>redirect := Some r\<rparr>) (Some u) uh =
       snd (curl_url_set eng
             (snd (curl_url_set eng uh CURLUPART_URL u
                     {CURLU_GUESS_SCHEME, CURLU_NON_SUPPORT_SCHEME}))
             CURLUPART_URL r {CURLU_GUESS_SCHEME, CURLU_NON_SUPPORT_SCHEME})"
  by (simp add: singleurl_def mutate_and_output_redirect set_base_def cong: option.case_cong)

text \<open>
  C3 as stated fails when no base URL is given: with the redirect
  \<^verbatim>\<open>http://other.example/x\<close> and the components set to \<^verbatim>\<open>https\<close> and
  \<^verbatim>\<open>example.com\<close>, the handle the set phase starts from is still the empty one
  (setting the redirect would have filled it), and the URL printed is built from the
  set components alone.
\<close>

theorem redirect_without_base_counterexample:
  "set_base test_engine (no_opts\<lparr>redirect := Some ''http://other.example/x''\<rparr>) None [] = []
   \<and> snd (curl_url_set test_engine [] CURLUPART_URL ''http://other.example/x''
            {CURLU_GUESS_SCHEME, CURLU_NON_SUPPORT_SCHEME}) =
       [(CURLUPART_SCHEME, ''http''), (CURLUPART_HOST, ''other.example''),
        (CURLUPART_PATH, ''/x'')]
   \<and> singleurl test_engine
        (no_opts\<lparr>redirect := Some ''http://other.example/x'',
                  set_list := [''scheme=https'', ''host=example.com'']\<rparr>) None io0 =
       Return \<lparr>stdout = ''https://example.com/'' @ [CHR 0x0A], stderr = []\<rparr>"
  by code_simp

section \<open>Setting the whole URL\<close>

text \<open>
  C5, as the code has it: \<^verbatim>\<open>url\<close> is entry 0 of the table and the loop of the set
  phase starts at entry 0, so \<^verbatim>\<open>--set url=v\<close> is accepted like any other
  component: the engine is asked to set the whole URL to \<open>v\<close>, with the flags of
  every other set, and the set phase returns.
\<close>

theorem set_url_accepted:
  "set_opts eng uh (o_arg\<lparr>set_list := [''url='' @ v]\<rparr>) s =
     Return (snd (curl_url_set eng uh CURLUPART_URL v
                    {CURLU_NON_SUPPORT_SCHEME, CURLU_URLENCODE}))"
  by (simp add: set_opts_def set_split_def strchr_def variables_def var_match_def
        strncasecmp_eq_def NUM_COMPONENTS_def)

text \<open>
  C5 as stated fails: the set phase accepts \<^verbatim>\<open>url=http://example.com/x\<close> on an
  empty handle and returns the handle holding that URL.
\<close>

theorem set_url_counterexample:
  "set_opts test_engine [] (no_opts\<lparr>set_list := [''url=http://example.com/x'']\<rparr>) io0 =
     Return [(CURLUPART_SCHEME, ''http''), (CURLUPART_HOST, ''example.com''),
             (CURLUPART_PATH, ''/x'')]"
  by code_simp

section \<open>The result codes of the engine's set\<close>

lemma hide_get [simp]: "curl_url_get (hide_set_codes eng) = curl_url_get eng"
  by (simp add: hide_set_codes_def)

lemma hide_new [simp]: "curl_url (hide_set_codes eng) = curl_url eng"
  by (simp add: hide_set_codes_def)

lemma hide_strerror [simp]: "curl_url_strerror (hide_set_codes eng) = curl_url_strerror eng"
  by (simp add: hide_set_codes_def)

lemma hide_set [simp]:
  "snd (curl_url_set (hide_set_codes eng) uh part v flags) =
   snd (curl_url_set eng uh part v flags)"
  by (simp add: hide_set_codes_def)

lemma set_vars_hide:
  "set_vars (hide_set_codes eng) a vlen enc val vs i varset uh s =
   set_vars eng a vlen enc val vs i varset uh s"
  by (induction vs arbitrary: i) auto

lemma set_nodes_hide:
  "set_nodes (hide_set_codes eng) sets varset uh s = set_nodes eng sets varset uh s"
  by (induction sets arbitrary: varset uh)
     (auto simp: set_vars_hide split: option.splits outcome.splits)

lemma append_paths_hide:
  "append_paths (hide_set_codes eng) ps uh = append_paths eng ps uh"
  by (induction ps arbitrary: uh) (auto simp: Let_def split: option.splits)

lemma append_queries_hide:
  "append_queries (hide_set_codes eng) qs uh = append_queries eng qs uh"
  by (induction qs arbitrary: uh) (auto simp: Let_def split: option.splits)

lemma format_var_hide:
  "format_var (hide_set_codes eng) dec uh name part s = format_var eng dec uh name part s"
  by (simp add: format_var_def split: prod.splits)

lemma format_vars_hide:
  "format_vars (hide_set_codes eng) dec uh ptr vlen vs s = format_vars eng dec uh ptr vlen vs s"
  by (induction vs arbitrary: s) (auto simp: format_var_hide split: outcome.splits)

lemma format_loop_hide:
  "format_loop (hide_set_codes eng) dec uh ptr s = format_loop eng dec uh ptr s"
proof (induction ptr arbitrary: s rule: length_induct)
  case (1 ptr)
  show ?case
  proof (cases ptr)
    case Nil
    then show ?thesis by simp
  next
    case (Cons c rest)
    have IH: "\<And>ys s. length ys < Suc (length rest) \<Longrightarrow>
         format_loop (hide_set_codes eng) dec uh ys s = format_loop eng dec uh ys s"
      using 1 Cons by simp
    show ?thesis
      unfolding Cons format_loop.simps format_vars_hide
      by (auto simp: IH split: option.splits outcome.splits)
  qed
qed

lemma format_hide:
  "format (hide_set_codes eng) o_arg uh s = format eng o_arg uh s"
  by (simp add: format_def format_loop_hide cong: option.case_cong)

lemma output_url_hide:
  "output_url (hide_set_codes eng) o_arg uh s = output_url eng o_arg uh s"
  by (simp add: output_url_def format_hide)

lemma mutate_and_output_hide:
  "mutate_and_output (hide_set_codes eng) o_arg uh s = mutate_and_output eng o_arg uh s"
  by (simp add: mutate_and_output_def set_opts_def set_nodes_hide append_paths_hide
        append_queries_hide output_url_hide cong: outcome.case_cong)

lemma set_base_hide:
  "set_base (hide_set_codes eng) o_arg url_arg uh = set_base eng o_arg url_arg uh"
  by (simp add: set_base_def cong: option.case_cong)

lemma singleurl_hide:
  "singleurl (hide_set_codes eng) o_arg url_arg s = singleurl eng o_arg url_arg s"
  by (simp add: singleurl_def mutate_and_output_hide set_base_hide cong: option.case_cong)

lemma urllist_loop_hide:
  "urllist_loop (hide_set_codes eng) o_arg us s = urllist_loop eng o_arg us s"
  by (induction us arbitrary: s) (auto simp: singleurl_hide split: outcome.splits)

lemma urlfile_loop_hide:
  "urlfile_loop (hide_set_codes eng) o_arg stream s = urlfile_loop eng o_arg stream s"
proof (induction eng o_arg stream s rule: urlfile_loop.induct)
  case (1 eng o_arg stream s)
  show ?case
    apply (subst urlfile_loop.simps)
    apply (subst (2) urlfile_loop.simps)
    using 1 by (auto simp: singleurl_hide split: option.splits outcome.splits)
qed

text \<open>
  C6, as the code has it: the result code of the engine's set is discarded at every
  call, in the set phase and in both append loops as for the base URL and the
  redirect. Whatever codes the engine reports, the run of one URL and the run of the
  whole batch are the same as with an engine that changes the handle in the same way
  and reports success every time.
\<close>

theorem set_codes_ignored:
  "singleurl (hide_set_codes eng) o_arg url_arg s = singleurl eng o_arg url_arg s
   \<and> main_urls (hide_set_codes eng) o_arg s = main_urls eng o_arg s"
  by (simp add: singleurl_hide main_urls_def urllist_loop_hide urlfile_loop_hide
        cong: option.case_cong)

text \<open>
  C6 as stated fails: \<^verbatim>\<open>--set port=abc\<close> on \<^verbatim>\<open>http://example.com/\<close> makes the
  engine's set fail with a bad port number, and the run goes on to print the URL and
  return, with nothing on stderr.
\<close>

theorem set_codes_ignored_counterexample:
  "fst (curl_url_set test_engine
          [(CURLUPART_SCHEME, ''http''), (CURLUPART_HOST, ''example.com''),
           (CURLUPART_PATH, ''/'')]
          CURLUPART_PORT ''abc'' {CURLU_NON_SUPPORT_SCHEME, CURLU_URLENCODE}) =
     CURLUE_BAD_PORT_NUMBER
   \<and> singleurl test_engine (no_opts\<lparr>set_list := [''port=abc'']\<rparr>)
        (Some ''http://example.com/'') io0 =
       Return \<lparr>stdout = ''http://example.com/'' @ [CHR 0x0A], stderr = []\<rparr>"
  by code_simp

section \<open>Concrete runs\<close>

text \<open>The definitions a run on the small engine unfolds.\<close>

lemmas run_defs =
  singleurl_def mutate_and_output_def set_base_def set_opts_def set_split_def strchr_def
  output_url_def format_def format_var_def main_urls_def variables_def var_match_def strncasecmp_eq_def
  NUM_COMPONENTS_def tolower_def char_of_def bit_Suc_0_iff Let_def
  fputs_stdout_def fputc_stdout_def fputs_stderr_def errorf_def
  ERROR_PREFIX_def PROGNAME_def ERROR_SET_def ERROR_URL_def ERROR_MEM_def
  test_engine_def test_set_def test_get_def test_parse_def no_opts_def io0_def

section \<open>A template with an opening brace that is never closed\<close>

lemma format_loop_plain:
  "set lit \<inter> {CHR ''{'', CHR 0x5C} = {} \<Longrightarrow>
   format_loop eng dec uh lit s = Return (fputs_stdout lit s)"
proof (induction lit arbitrary: s)
  case Nil
  then show ?case by (simp add: fputs_stdout_def)
next
  case (Cons c lit)
  have c: "c \<noteq> CHR ''{''" "c \<noteq> CHR 0x5C" and r: "set lit \<inter> {CHR ''{'', CHR 0x5C} = {}"
    using Cons.prems by auto
  have "format_loop eng dec uh (c # lit) s = format_loop eng dec uh lit (fputc_stdout c s)"
    using c by simp
  also have "\<dots> = Return (fputs_stdout lit (fputc_stdout c s))"
    by (rule Cons.IH [OF r])
  finally show ?case by (simp add: fputs_stdout_def fputc_stdout_def)
qed

text \<open>
  C4, as the code has it: when the loop is at a \<^verbatim>\<open>{\<close> that is not followed by
  another \<^verbatim>\<open>{\<close> and no \<^verbatim>\<open>}\<close> occurs in the rest of the template, only the
  \<^verbatim>\<open>{\<close> is dropped and rendering goes on with the characters after it. In
  particular, when those characters hold no further \<^verbatim>\<open>{\<close> and no backslash, all
  of them are written to the output.
\<close>

theorem unterminated_brace_dropped:
  assumes "CHR ''}'' \<notin> set rest" and "rest = [] \<or> hd rest \<noteq> CHR ''{''"
  shows "format_loop eng dec uh (CHR ''{'' # rest) s = format_loop eng dec uh rest s
         \<and> (set rest \<inter> {CHR ''{'', CHR 0x5C} = {} \<longrightarrow>
              format_loop eng dec uh (CHR ''{'' # rest) s = Return (fputs_stdout rest s))"
proof -
  have n: "strchr (CHR ''{'' # rest) (CHR ''}'') = None"
    using assms(1) by (simp add: strchr_def)
  have e: "\<not> (rest \<noteq> [] \<and> hd rest = CHR ''{'')"
    using assms(2) by blast
  have a: "format_loop eng dec uh (CHR ''{'' # rest) s = format_loop eng dec uh rest s"
    by (simp only: format_loop.simps(2) n e if_True if_False option.case simp_thms)
  have b: "set rest \<inter> {CHR ''{'', CHR 0x5C} = {} \<longrightarrow>
           format_loop eng dec uh (CHR ''{'' # rest) s = Return (fputs_stdout rest s)"
  proof
    assume h: "set rest \<inter> {CHR ''{'', CHR 0x5C} = {}"
    show "format_loop eng dec uh (CHR ''{'' # rest) s = Return (fputs_stdout rest s)"
      by (simp only: a format_loop_plain [OF h])
  qed
  show ?thesis using a b by (rule conjI)
qed

text \<open>The template \<^verbatim>\<open>{host\<close>: the four letters after the brace are written.\<close>

theorem unterminated_brace_dropped_witness:
  "format_loop test_engine False [(CURLUPART_HOST, ''example.com'')] ''{host'' io0 =
     Return \<lparr>stdout = ''host'', stderr = []\<rparr>"
proof -
  have h1: "CHR ''}'' \<notin> set ''host''" by simp
  have h2: "''host'' = [] \<or> hd ''host'' \<noteq> CHR ''{''" by simp
  have h3: "set ''host'' \<inter> {CHR ''{'', CHR 0x5C} = {}" by simp
  have "format_loop test_engine False [(CURLUPART_HOST, ''example.com'')] ''{host'' io0 =
        Return (fputs_stdout ''host'' io0)"
    using conjunct2 [OF unterminated_brace_dropped [OF h1 h2]] h3 by (rule mp)
  also have "fputs_stdout ''host'' io0 = \<lparr>stdout = ''host'', stderr = []\<rparr>"
    by (simp add: fputs_stdout_def io0_def)
  finally show ?thesis .
qed

text \<open>
  C4 as stated fails: the template \<^verbatim>\<open>a{host\<close> renders as \<^verbatim>\<open>ahost\<close> and the
  newline, not as \<^verbatim>\<open>a\<close> and the newline.
\<close>

theorem unterminated_brace_counterexample:
  "format test_engine (no_opts\<lparr>get_format := Some ''a{host''\<rparr>)
     [(CURLUPART_HOST, ''example.com'')] io0 =
   Return \<lparr>stdout = ''ahost'' @ [CHR 0x0A], stderr = []\<rparr>"
  by code_simp

section \<open>Appending to the path\<close>

text \<open>
  When the engine hands back a current path that is not empty, the new path is the
  current path and the segment, with one \<^verbatim>\<open>/\<close> between them unless the current
  path already ends with one, and it is set with no flag.
\<close>

lemma path_append_nonempty:
  assumes "snd (curl_url_get eng uh CURLUPART_PATH {}) = Some opath" and "opath \<noteq> []"
  shows "append_paths eng (apath # ps) uh =
         append_paths eng ps
           (snd (curl_url_set eng uh CURLUPART_PATH
                   (if last opath = CHR ''/'' then opath @ apath else opath @ ''/'' @ apath) {}))"
  using assms by simp

text \<open>
  On a handle without a path, which the small engine reads as \<^verbatim>\<open>/\<close>, appending
  \<^verbatim>\<open>a\<close> and then \<^verbatim>\<open>b\<close> gives \<^verbatim>\<open>/a/b\<close>.
\<close>

lemma path_append_example:
  "append_paths test_engine [''a'', ''b''] [(CURLUPART_HOST, ''example.com'')] =
     Return [(CURLUPART_HOST, ''example.com''), (CURLUPART_PATH, ''/a/b'')]"
  by code_simp

text \<open>
  C8 at its failing input: the claim gives \<^verbatim>\<open>/a\<close> for the segment \<^verbatim>\<open>a\<close>
  appended to an empty current path. The code tests \<^verbatim>\<open>opath[olen-1]\<close> with
  \<^verbatim>\<open>olen\<close> zero, a read before the start of the string: with every engine whose
  get hands back the empty string, whatever the segment, the outcome is undefined
  behaviour and no path is set.
\<close>

theorem path_append_empty_path:
  "append_paths (eng\<lparr>curl_url_get := \<lambda>uh part flags. (CURLUE_OK, Some [])\<rparr>) (apath # ps) uh =
     Undefined
   \<and> append_paths test_engine [''a'']
        [(CURLUPART_HOST, ''example.com''), (CURLUPART_PATH, [])] = Undefined"
  by (simp add: test_engine_def test_get_def)

section \<open>Appending to the query\<close>

text \<open>
  C2 at its failing input: the format string \<^verbatim>\<open>"%s&%s"\<close> always writes the
  \<^verbatim>\<open>&\<close>. Appending \<^verbatim>\<open>k=v\<close> to an empty query sets the query \<^verbatim>\<open>&k=v\<close>, and
  the URL printed is \<^verbatim>\<open>http://example.com/?&k=v\<close>. With no query at all the
  engine hands back no string, and the code prints through that pointer.
\<close>

theorem query_append_empty_query:
  "append_queries test_engine [''k=v'']
     [(CURLUPART_HOST, ''example.com''), (CURLUPART_QUERY, [])] =
     Return [(CURLUPART_HOST, ''example.com''), (CURLUPART_QUERY, ''&k=v'')]
   \<and> singleurl test_engine (no_opts\<lparr>set_list := [''query=''], append_query := [''k=v'']\<rparr>)
        (Some ''http://example.com/'') io0 =
       Return \<lparr>stdout = ''http://example.com/?&k=v'' @ [CHR 0x0A], stderr = []\<rparr>
   \<and> append_queries test_engine [''k=v''] [(CURLUPART_HOST, ''example.com'')] = Undefined"
  by (simp add: run_defs)

section \<open>Looking a component name up\<close>

lemma names_lower:
  "(name, part) \<in> set variables \<Longrightarrow> map tolower name = name"
  by (auto simp: variables_def tolower_def)

lemma var_match_exact:
  assumes "(name, part) \<in> set variables"
  shows "var_match (key @ rest) name (length key) \<longleftrightarrow> map tolower key = name"
proof
  assume "var_match (key @ rest) name (length key)"
  then have l: "length name = length key" and m: "map tolower key = map tolower name"
    by (simp_all add: var_match_def strncasecmp_eq_def)
  show "map tolower key = name"
    using m names_lower [OF assms] by simp
next
  assume e: "map tolower key = name"
  then have l: "length name = length key"
    by (metis length_map)
  show "var_match (key @ rest) name (length key)"
    using l e names_lower [OF assms] by (simp add: var_match_def strncasecmp_eq_def)
qed

lemma distinct_names: "distinct (map fst variables)"
  by (simp add: variables_def)

lemma set_vars_find:
  "set_vars eng a vlen enc val vs i varset uh s =
     (case List.find (\<lambda>(j, name, part). var_match a name vlen) (enumerate i vs) of
        None \<Rightarrow> errorf ERROR_SET (''Set unknown component: '' @ a) s
      | Some (j, name, part) \<Rightarrow>
          if varset ! j then
            errorf ERROR_SET (''A component can only be set once per URL ('' @ name @ '')'') s
          else Return (snd (curl_url_set eng uh part val
                              ({CURLU_NON_SUPPORT_SCHEME} \<union>
                               (if enc then {CURLU_URLENCODE} else {}))),
                       varset[j := True]))"
  by (induction vs arbitrary: i) auto

lemma find_exact:
  assumes "\<forall>(name, part) \<in> set vs. var_match a name vlen \<longleftrightarrow> name = k"
  shows "List.find (\<lambda>(j, name, part). var_match a name vlen) (enumerate i vs) =
         List.find (\<lambda>(j, name, part). name = k) (enumerate i vs)"
  using assms by (induction vs arbitrary: i) auto

lemma find_enumerate_map_of:
  "map_option (\<lambda>(j, name, part). part) (List.find (\<lambda>(j, name, part). name = k) (enumerate i vs))
     = map_of vs k"
  by (induction vs arbitrary: i) auto

lemma names_apart:
  assumes "map_of variables k = Some p" and "(name, q) \<in> set variables"
  shows "\<not> strict_prefix k name \<and> \<not> strict_prefix name k \<and>
         \<not> (length k = length name \<and> length (filter (\<lambda>(a, b). a \<noteq> b) (zip k name)) = 1)"
proof -
  have "(k, p) \<in> set variables" using assms(1) by (rule map_of_SomeD)
  then show ?thesis using assms(2)
    by (auto simp: variables_def)
qed


lemma find_enumerate_bound:
  "List.find P (enumerate i vs) = Some (j, np) \<Longrightarrow> i \<le> j \<and> j < i + length vs \<and> vs ! (j - i) = np"
proof (induction vs arbitrary: i)
  case Nil
  then show ?case by simp
next
  case (Cons v vs)
  show ?case
  proof (cases "P (i, v)")
    case True
    then show ?thesis using Cons.prems by simp
  next
    case False
    then have "List.find P (enumerate (Suc i) vs) = Some (j, np)"
      using Cons.prems by simp
    from Cons.IH [OF this] show ?thesis by (auto simp: Suc_diff_le)
  qed
qed

lemma set_split_plain:
  assumes "key \<noteq> []" and "CHR ''='' \<notin> set key" and "last key \<noteq> CHR '':''"
  shows "set_split (key @ CHR ''='' # val) = Some (length key, True, val)"
proof -
  have "(key @ CHR ''='' # val) ! (length key - 1) = last key"
    using assms(1) by (simp add: nth_append last_conv_nth)
  then show ?thesis
    using assms by (simp add: set_split_def strchr_eq_prefix)
qed

lemma format_vars_exact:
  assumes "distinct (map fst vs)"
    and "\<forall>(n, p) \<in> set vs. var_match a n vlen \<longleftrightarrow> n = k"
  shows "format_vars eng dec uh a vlen vs s =
         (case map_of vs k of None \<Rightarrow> Return s | Some part \<Rightarrow> format_var eng dec uh k part s)"
  using assms
proof (induction vs arbitrary: s)
  case Nil
  then show ?case by simp
next
  case (Cons v vs)
  obtain n p where v: "v = (n, p)" by (cases v)
  have d: "distinct (map fst vs)" and nin: "n \<notin> fst ` set vs"
    using Cons.prems(1) v by auto
  have ex: "\<forall>(n, p) \<in> set vs. var_match a n vlen \<longleftrightarrow> n = k"
    using Cons.prems(2) by simp
  have m: "var_match a n vlen \<longleftrightarrow> n = k"
    using Cons.prems(2) v by simp
  note IH = Cons.IH [OF d ex]
  show ?case
  proof (cases "n = k")
    case True
    then have "map_of vs k = None"
      using nin by (simp add: map_of_eq_None_iff)
    then show ?thesis
      using True m v by (simp add: IH split: outcome.splits)
  next
    case False
    then show ?thesis using m v by (simp add: IH)
  qed
qed


lemma variables_exact:
  "\<forall>(n, p) \<in> set variables. var_match (key @ rest) n (length key) \<longleftrightarrow> n = map tolower key"
  by (auto simp: var_match_exact)

lemma errorf_case [simp]:
  "(case errorf c m s of Return x \<Rightarrow> f x | Exit a b \<Rightarrow> Exit a b | Undefined \<Rightarrow> Undefined) =
   errorf c m s"
  by (simp add: errorf_def)

lemma format_loop_token:
  assumes "CHR ''}'' \<notin> set key" and "key = [] \<or> hd key \<noteq> CHR ''{''"
  shows "format_loop eng dec uh (CHR ''{'' # key @ CHR ''}'' # rest) s =
        (case map_of variables (map tolower key) of
           Some part \<Rightarrow>
             (case format_var eng dec uh (map tolower key) part s of
                Return s' \<Rightarrow> format_loop eng dec uh rest s'
              | Exit x s' \<Rightarrow> Exit x s'
              | Undefined \<Rightarrow> Undefined)
         | None \<Rightarrow> format_loop eng dec uh rest s)"
proof -
  let ?r = "key @ CHR ''}'' # rest"
  have st: "strchr (CHR ''{'' # ?r) (CHR ''}'') = Some (Suc (length key))"
    using assms(1) by (simp add: strchr_def takeWhile_neq_prefix)
  have e: "hd ?r \<noteq> CHR ''{''"
    using assms(2) by (cases key) auto
  have fv: "format_vars eng dec uh ?r (length key) variables s =
        (case map_of variables (map tolower key) of None \<Rightarrow> Return s
         | Some part \<Rightarrow> format_var eng dec uh (map tolower key) part s)"
    by (rule format_vars_exact [OF distinct_names variables_exact])
  have "format_loop eng dec uh (CHR ''{'' # ?r) s =
        (case format_vars eng dec uh ?r (length key) variables s of
           Return s' \<Rightarrow> format_loop eng dec uh rest s'
         | Exit x s' \<Rightarrow> Exit x s'
         | Undefined \<Rightarrow> Undefined)"
    by (subst format_loop.simps(2))
       (simp add: st e del: format_loop.simps cong: outcome.case_cong)
  then show ?thesis
    by (simp add: fv split: option.splits)
qed

lemma of_char_tolower:
  "(of_char (tolower c) :: nat) =
     (if 65 \<le> (of_char c :: nat) \<and> (of_char c :: nat) \<le> 90 then of_char c + 32 else of_char c)"
  by (simp add: tolower_def Let_def)

lemma same_letter_iff: "same_letter a b \<longleftrightarrow> tolower a = tolower b"
proof -
  have "tolower a = tolower b \<longleftrightarrow> (of_char (tolower a) :: nat) = of_char (tolower b)"
    by simp
  also have "\<dots> \<longleftrightarrow> same_letter a b"
    unfolding of_char_tolower same_letter_def
    using of_char_eq_iff [of a b, where 'a = nat] by auto
  finally show ?thesis by simp
qed

lemma list_all2_same_letter:
  "list_all2 same_letter k n \<longleftrightarrow> map tolower k = map tolower n"
proof (induction k arbitrary: n)
  case Nil
  then show ?case by auto
next
  case (Cons a k)
  then show ?case by (cases n) (auto simp: same_letter_iff)
qed

lemma same_letter_name:
  "(name, part) \<in> set variables \<Longrightarrow> list_all2 same_letter k name \<longleftrightarrow> name = map tolower k"
  using names_lower [of name part] by (auto simp: list_all2_same_letter)

lemma find_enum_cong:
  assumes "\<forall>(name, part) \<in> set vs. P name \<longleftrightarrow> Q name"
  shows "List.find (\<lambda>(j, name, part). P name) (enumerate i vs) =
         List.find (\<lambda>(j, name, part). Q name) (enumerate i vs)"
  using assms by (induction vs arbitrary: i) auto

lemma lookup_var_lower:
  "lookup_var key =
     List.find (\<lambda>(j, name, part). name = map tolower key) (enumerate 0 variables)"
  unfolding lookup_var_def
  by (rule find_enum_cong) (auto simp: same_letter_name)

lemma find_enum_name:
  "List.find (\<lambda>(j, name, part). name = k) (enumerate i vs) = Some (j, n, p) \<Longrightarrow> n = k"
  by (induction vs arbitrary: i) (auto split: if_splits)

lemma find_enum_distinct:
  "distinct (map fst vs) \<Longrightarrow> i < length vs \<Longrightarrow>
   List.find (\<lambda>(j, name, part). name = fst (vs ! i)) (enumerate m vs) = Some (m + i, vs ! i)"
proof (induction vs arbitrary: i m)
  case Nil
  then show ?case by simp
next
  case (Cons v vs)
  show ?case
  proof (cases i)
    case 0
    then show ?thesis by (cases v) simp
  next
    case (Suc i')
    have "fst (vs ! i') \<in> fst ` set vs" using Cons.prems(2) Suc by simp
    moreover have "fst v \<notin> fst ` set vs" using Cons.prems(1) by simp
    ultimately have ne: "fst v \<noteq> fst (vs ! i')" by metis
    have "List.find (\<lambda>(j, name, part). name = fst (vs ! i')) (enumerate (Suc m) vs) =
          Some (Suc m + i', vs ! i')"
      using Cons.IH [of i' "Suc m"] Cons.prems Suc by simp
    then show ?thesis using ne Suc by (cases v) simp
  qed
qed

lemma set_split_form:
  assumes "key \<noteq> []" and "CHR ''='' \<notin> set key" and "last key \<noteq> CHR '':''"
  shows "set_split (key @ (if enc then [] else '':'') @ ''='' @ val) = Some (length key, enc, val)"
proof (cases enc)
  case True
  then show ?thesis using set_split_plain [OF assms] by simp
next
  case False
  have n: "CHR ''='' \<notin> set (key @ '':'')" using assms(2) by simp
  have st: "strchr ((key @ '':'') @ CHR ''='' # val) (CHR ''='') = Some (length (key @ '':''))"
    by (rule strchr_eq_prefix [OF n])
  have "((key @ '':'') @ CHR ''='' # val) ! (length key) = CHR '':''"
    by (simp add: nth_append)
  then show ?thesis using False st by (simp add: set_split_def)
qed

lemma mismatch_count:
  "length (filter (\<lambda>(a, b). \<not> same_letter a b) (zip k n)) =
   length (filter (\<lambda>(a, b). a \<noteq> b) (zip (map tolower k) (map tolower n)))"
proof (induction k arbitrary: n)
  case Nil
  then show ?case by simp
next
  case (Cons a k)
  then show ?case by (cases n) (simp_all add: same_letter_iff)
qed


lemma set_nodes_lookup:
  assumes "key \<noteq> []" and "CHR ''='' \<notin> set key" and "last key \<noteq> CHR '':''"
  shows "set_nodes eng ((key @ (if enc then [] else '':'') @ ''='' @ val) # rest) varset uh s =
        (case lookup_var key of
           None \<Rightarrow>
             errorf ERROR_SET (''Set unknown component: '' @
                               key @ (if enc then [] else '':'') @ ''='' @ val) s
         | Some (i, name, part) \<Rightarrow>
             if varset ! i then
               errorf ERROR_SET (''A component can only be set once per URL ('' @ name @ '')'') s
             else
               set_nodes eng rest (varset[i := True])
                 (snd (curl_url_set eng uh part val
                         ({CURLU_NON_SUPPORT_SCHEME} \<union>
                          (if enc then {CURLU_URLENCODE} else {})))) s)"
proof -
  define a where "a = key @ (if enc then [] else '':'') @ ''='' @ val"
  have sp: "set_split a = Some (length key, enc, val)"
    unfolding a_def by (rule set_split_form [OF assms])
  have fe: "List.find (\<lambda>(j, name, part). var_match a name (length key)) (enumerate 0 variables) =
            lookup_var key"
    unfolding lookup_var_lower a_def by (rule find_exact [OF variables_exact])
  have "set_nodes eng (a # rest) varset uh s =
        (case lookup_var key of
           None \<Rightarrow> errorf ERROR_SET (''Set unknown component: '' @ a) s
         | Some (i, name, part) \<Rightarrow>
             if varset ! i then
               errorf ERROR_SET (''A component can only be set once per URL ('' @ name @ '')'') s
             else
               set_nodes eng rest (varset[i := True])
                 (snd (curl_url_set eng uh part val
                         ({CURLU_NON_SUPPORT_SCHEME} \<union>
                          (if enc then {CURLU_URLENCODE} else {})))) s)"
    by (cases "lookup_var key") (auto simp: sp set_vars_find fe)
  then show ?thesis unfolding a_def .
qed

lemma format_loop_lookup:
  assumes "CHR ''}'' \<notin> set key" and "key = [] \<or> hd key \<noteq> CHR ''{''"
  shows "format_loop eng dec uh (CHR ''{'' # key @ CHR ''}'' # rest) s =
        (case lookup_var key of
           None \<Rightarrow> format_loop eng dec uh rest s
         | Some (i, name, part) \<Rightarrow>
             (case format_var eng dec uh name part s of
                Return s' \<Rightarrow> format_loop eng dec uh rest s'
              | Exit x s' \<Rightarrow> Exit x s'
              | Undefined \<Rightarrow> Undefined))"
proof -
  let ?F = "List.find (\<lambda>(j, name, part). name = map tolower key) (enumerate 0 variables)"
  have mo: "map_option (\<lambda>(j, name, part). part) ?F = map_of variables (map tolower key)"
    by (rule find_enumerate_map_of)
  show ?thesis
  proof (cases ?F)
    case None
    then have "map_of variables (map tolower key) = None" using mo by simp
    then show ?thesis
      using None by (simp add: format_loop_token [OF assms] lookup_var_lower del: format_loop.simps)
  next
    case (Some jnp)
    obtain j n p where jnp: "jnp = (j, n, p)" by (cases jnp)
    have n: "n = map tolower key" using find_enum_name Some jnp by fast
    have "map_of variables (map tolower key) = Some p" using mo Some jnp by simp
    then show ?thesis
      using Some jnp n by (simp add: format_loop_token [OF assms] lookup_var_lower del: format_loop.simps)
  qed
qed

lemma lookup_var_variant:
  assumes "i < length variables" and "list_all2 same_letter k (fst (variables ! i))"
  shows "lookup_var k = Some (i, variables ! i)"
proof -
  have "(fst (variables ! i), snd (variables ! i)) \<in> set variables"
    using assms(1) by simp
  from same_letter_name [OF this] assms(2) have "fst (variables ! i) = map tolower k" by simp
  then show ?thesis
    using find_enum_distinct [OF distinct_names assms(1), of 0] by (simp add: lookup_var_lower)
qed

lemma lookup_var_apart:
  assumes "(name, part) \<in> set variables"
    and "(length k < length name \<and> list_all2 same_letter k (take (length k) name))
         \<or> (length name < length k \<and> list_all2 same_letter (take (length name) k) name)
         \<or> (length k = length name \<and>
             length (filter (\<lambda>(a, b). \<not> same_letter a b) (zip k name)) = 1)"
  shows "lookup_var k = None"
proof -
  let ?lk = "map tolower k"
  have nl: "map tolower name = name" by (rule names_lower [OF assms(1)])
  have rel: "strict_prefix ?lk name \<or> strict_prefix name ?lk \<or>
        (length ?lk = length name \<and> length (filter (\<lambda>(a, b). a \<noteq> b) (zip ?lk name)) = 1)"
    using assms(2)
  proof (elim disjE conjE)
    assume l: "length k < length name" and a: "list_all2 same_letter k (take (length k) name)"
    from a have "?lk = take (length k) name"
      by (simp add: list_all2_same_letter take_map [symmetric] nl)
    then have "prefix ?lk name" and "?lk \<noteq> name"
      using l by (metis take_is_prefix, metis length_map less_irrefl)
    then show ?thesis by (simp add: strict_prefix_def)
  next
    assume l: "length name < length k" and a: "list_all2 same_letter (take (length name) k) name"
    from a have "take (length name) ?lk = name"
      by (simp add: list_all2_same_letter take_map nl)
    then have "prefix name ?lk" and "name \<noteq> ?lk"
      using l by (metis take_is_prefix, metis length_map less_irrefl)
    then show ?thesis by (simp add: strict_prefix_def)
  next
    assume "length k = length name"
      and "length (filter (\<lambda>(a, b). \<not> same_letter a b) (zip k name)) = 1"
    then show ?thesis using mismatch_count [of k name] nl by simp
  qed
  have "map_of variables ?lk = None"
  proof (cases "map_of variables ?lk")
    case None
    then show ?thesis .
  next
    case (Some p)
    from names_apart [OF Some assms(1)] rel show ?thesis by blast
  qed
  then have "map_option (\<lambda>(j, name, part). part)
               (List.find (\<lambda>(j, name, part). name = ?lk) (enumerate 0 variables)) = None"
    by (simp add: find_enumerate_map_of)
  then show ?thesis by (simp add: lookup_var_lower)
qed

text \<open>
  C9: the lookup of both loops is the case-insensitive, length-exact lookup of the
  key among the eleven table names.
  For a \<^verbatim>\<open>--set\<close> argument \<^verbatim>\<open>key=val\<close> or \<^verbatim>\<open>key:=val\<close> (the key not empty,
  without \<^verbatim>\<open>=\<close> and not ending in \<^verbatim>\<open>:\<close>), at any place in the list and
  whatever was set before it, the set phase fails with the fatal "Set unknown
  component" error when the lookup finds nothing; otherwise it goes on with the
  component found (the duplicate error if it was set before, else the engine's set,
  encoding only without the colon).
  For a template token \<^verbatim>\<open>{key}\<close> the component found is fetched and printed, and
  the token is skipped when the lookup finds nothing.
  Every letter-case variant of a table name is found, at the index of that name.
  A string that is a strict prefix or a strict extension of a letter-case variant of a
  table name, or that has the length of a table name and differs from it at exactly
  one position by more than letter case, is not found.
\<close>

theorem component_lookup_exact:
  "(key \<noteq> [] \<and> CHR ''='' \<notin> set key \<and> last key \<noteq> CHR '':'' \<longrightarrow>
      set_nodes eng ((key @ (if enc then [] else '':'') @ ''='' @ val) # rest) varset uh s =
        (case lookup_var key of
           None \<Rightarrow>
             errorf ERROR_SET (''Set unknown component: '' @
                               key @ (if enc then [] else '':'') @ ''='' @ val) s
         | Some (i, name, part) \<Rightarrow>
             if varset ! i then
               errorf ERROR_SET (''A component can only be set once per URL ('' @ name @ '')'') s
             else
               set_nodes eng rest (varset[i := True])
                 (snd (curl_url_set eng uh part val
                         ({CURLU_NON_SUPPORT_SCHEME} \<union>
                          (if enc then {CURLU_URLENCODE} else {})))) s))
   \<and> (CHR ''}'' \<notin> set key \<and> (key = [] \<or> hd key \<noteq> CHR ''{'') \<longrightarrow>
      format_loop eng dec uh (CHR ''{'' # key @ CHR ''}'' # rest') s =
        (case lookup_var key of
           None \<Rightarrow> format_loop eng dec uh rest' s
         | Some (i, name, part) \<Rightarrow>
             (case format_var eng dec uh name part s of
                Return s' \<Rightarrow> format_loop eng dec uh rest' s'
              | Exit x s' \<Rightarrow> Exit x s'
              | Undefined \<Rightarrow> Undefined)))
   \<and> (\<forall>i k. i < length variables \<and> list_all2 same_letter k (fst (variables ! i)) \<longrightarrow>
          lookup_var k = Some (i, variables ! i))
   \<and> (\<forall>name part k. (name, part) \<in> set variables \<and>
          ((length k < length name \<and> list_all2 same_letter k (take (length k) name))
           \<or> (length name < length k \<and> list_all2 same_letter (take (length name) k) name)
           \<or> (length k = length name \<and>
               length (filter (\<lambda>(a, b). \<not> same_letter a b) (zip k name)) = 1)) \<longrightarrow>
          lookup_var k = None)"
proof (intro conjI impI allI)
  assume "key \<noteq> [] \<and> CHR ''='' \<notin> set key \<and> last key \<noteq> CHR '':''"
  then have a: "key \<noteq> []" and b: "CHR ''='' \<notin> set key" and c: "last key \<noteq> CHR '':''"
    by simp_all
  show "set_nodes eng ((key @ (if enc then [] else '':'') @ ''='' @ val) # rest) varset uh s =
        (case lookup_var key of
           None \<Rightarrow>
             errorf ERROR_SET (''Set unknown component: '' @
                               key @ (if enc then [] else '':'') @ ''='' @ val) s
         | Some (i, name, part) \<Rightarrow>
             if varset ! i then
               errorf ERROR_SET (''A component can only be set once per URL ('' @ name @ '')'') s
             else
               set_nodes eng rest (varset[i := True])
                 (snd (curl_url_set eng uh part val
                         ({CURLU_NON_SUPPORT_SCHEME} \<union>
                          (if enc then {CURLU_URLENCODE} else {})))) s)"
    by (rule set_nodes_lookup [OF a b c])
next
  assume "CHR ''}'' \<notin> set key \<and> (key = [] \<or> hd key \<noteq> CHR ''{'')"
  then have a: "CHR ''}'' \<notin> set key" and b: "key = [] \<or> hd key \<noteq> CHR ''{''"
    by simp_all
  show "format_loop eng dec uh (CHR ''{'' # key @ CHR ''}'' # rest') s =
        (case lookup_var key of
           None \<Rightarrow> format_loop eng dec uh rest' s
         | Some (i, name, part) \<Rightarrow>
             (case format_var eng dec uh name part s of
                Return s' \<Rightarrow> format_loop eng dec uh rest' s'
              | Exit x s' \<Rightarrow> Exit x s'
              | Undefined \<Rightarrow> Undefined))"
    by (rule format_loop_lookup [OF a b])
next
  fix i k
  assume "i < length variables \<and> list_all2 same_letter k (fst (variables ! i))"
  then show "lookup_var k = Some (i, variables ! i)"
    using lookup_var_variant by blast
next
  fix name part k
  assume h: "(name, part) \<in> set variables \<and>
          ((length k < length name \<and> list_all2 same_letter k (take (length k) name))
           \<or> (length name < length k \<and> list_all2 same_letter (take (length name) k) name)
           \<or> (length k = length name \<and>
               length (filter (\<lambda>(a, b). \<not> same_letter a b) (zip k name)) = 1))"
  show "lookup_var k = None"
    by (rule lookup_var_apart [OF conjunct1 [OF h] conjunct2 [OF h]])
qed

text \<open>
  \<^verbatim>\<open>PATH=/x\<close> sets the path with encoding, \<^verbatim>\<open>Host:=x\<close> sets the host without;
  \<^verbatim>\<open>{HOST}\<close> prints the host; \<^verbatim>\<open>QuErY\<close> is entry 8; \<^verbatim>\<open>hos\<close>,
  \<^verbatim>\<open>hostx\<close> and \<^verbatim>\<open>hist\<close> are not found.
\<close>

theorem component_lookup_exact_witness:
  "set_opts test_engine [] (no_opts\<lparr>set_list := [''PATH=/x'']\<rparr>) io0 =
     Return [(CURLUPART_PATH, ''/x'')]
   \<and> set_opts test_engine [] (no_opts\<lparr>set_list := [''Host:=x'']\<rparr>) io0 =
     Return [(CURLUPART_HOST, ''x'')]
   \<and> set_opts test_engine [] (no_opts\<lparr>set_list := [''hos=example.com'']\<rparr>) io0 =
     errorf ERROR_SET ''Set unknown component: hos=example.com'' io0
   \<and> format_loop test_engine False [(CURLUPART_HOST, ''example.com'')] ''{HOST}'' io0 =
     Return \<lparr>stdout = ''example.com'', stderr = []\<rparr>
   \<and> lookup_var ''QuErY'' = Some (8, ''query'', CURLUPART_QUERY)
   \<and> lookup_var ''hos'' = None \<and> lookup_var ''hostx'' = None \<and> lookup_var ''hist'' = None"
proof -
  note T = component_lookup_exact
  note P = conjunct1 [OF conjunct2 [OF conjunct2 [OF T]], rule_format]
  note N = conjunct2 [OF conjunct2 [OF conjunct2 [OF T]], rule_format]
  have l1: "lookup_var ''PATH'' = Some (7, variables ! 7)"
    by (rule P) (simp add: variables_def same_letter_def)
  have l2: "lookup_var ''Host'' = Some (5, variables ! 5)"
    by (rule P) (simp add: variables_def same_letter_def)
  have l3: "lookup_var ''HOST'' = Some (5, variables ! 5)"
    by (rule P) (simp add: variables_def same_letter_def)
  have l4: "lookup_var ''QuErY'' = Some (8, variables ! 8)"
    by (rule P) (simp add: variables_def same_letter_def)
  have n1: "lookup_var ''hos'' = None"
    by (rule N [of "''host''" CURLUPART_HOST]) (simp add: variables_def same_letter_def)
  have n2: "lookup_var ''hostx'' = None"
    by (rule N [of "''host''" CURLUPART_HOST]) (simp add: variables_def same_letter_def)
  have n3: "lookup_var ''hist'' = None"
    by (rule N [of "''host''" CURLUPART_HOST]) (simp add: variables_def same_letter_def)
  have h1: "''PATH'' \<noteq> [] \<and> CHR ''='' \<notin> set ''PATH'' \<and> last ''PATH'' \<noteq> CHR '':''" by simp
  have h2: "''Host'' \<noteq> [] \<and> CHR ''='' \<notin> set ''Host'' \<and> last ''Host'' \<noteq> CHR '':''" by simp
  have h3: "''hos'' \<noteq> [] \<and> CHR ''='' \<notin> set ''hos'' \<and> last ''hos'' \<noteq> CHR '':''" by simp
  have h4: "CHR ''}'' \<notin> set ''HOST'' \<and> (''HOST'' = [] \<or> hd ''HOST'' \<noteq> CHR ''{'')" by simp
  have c1: "set_opts test_engine [] (no_opts\<lparr>set_list := [''PATH=/x'']\<rparr>) io0 =
     Return [(CURLUPART_PATH, ''/x'')]"
    using mp [OF conjunct1 [OF component_lookup_exact [where key = "''PATH''" and enc = True and val = "''/x''" and rest = "[]"
        and varset = "replicate NUM_COMPONENTS False" and eng = test_engine and uh = "[]" and s = io0]] h1]
    by (simp add: l1 set_opts_def variables_def NUM_COMPONENTS_def test_engine_def test_set_def
          del: set_nodes.simps(2))
  have c2: "set_opts test_engine [] (no_opts\<lparr>set_list := [''Host:=x'']\<rparr>) io0 =
     Return [(CURLUPART_HOST, ''x'')]"
    using mp [OF conjunct1 [OF component_lookup_exact [where key = "''Host''" and enc = False and val = "''x''" and rest = "[]"
        and varset = "replicate NUM_COMPONENTS False" and eng = test_engine and uh = "[]" and s = io0]] h2]
    by (simp add: l2 set_opts_def variables_def NUM_COMPONENTS_def test_engine_def test_set_def
          del: set_nodes.simps(2))
  have c3: "set_opts test_engine [] (no_opts\<lparr>set_list := [''hos=example.com'']\<rparr>) io0 =
     errorf ERROR_SET ''Set unknown component: hos=example.com'' io0"
    using mp [OF conjunct1 [OF component_lookup_exact [where key = "''hos''" and enc = True and val = "''example.com''" and rest = "[]"
        and varset = "replicate NUM_COMPONENTS False" and eng = test_engine and uh = "[]" and s = io0]] h3]
    by (simp add: n1 set_opts_def del: set_nodes.simps(2))
  have c4: "format_loop test_engine False [(CURLUPART_HOST, ''example.com'')] ''{HOST}'' io0 =
     Return \<lparr>stdout = ''example.com'', stderr = []\<rparr>"
    using mp [OF conjunct1 [OF conjunct2 [OF component_lookup_exact [where key = "''HOST''"
        and rest' = "[]" and eng = test_engine and dec = False
        and uh = "[(CURLUPART_HOST, ''example.com'')]" and s = io0]]] h4]
    by (simp add: l3 variables_def test_engine_def test_get_def format_var_def fputs_stdout_def
          io0_def del: format_loop.simps(2))
  have c5: "lookup_var ''QuErY'' = Some (8, ''query'', CURLUPART_QUERY)"
    using l4 by (simp add: variables_def)
  show ?thesis using c1 c2 c3 c4 c5 n1 n2 n3 by (intro conjI)
qed

section \<open>Setting a component twice\<close>

lemma set_targetD:
  assumes "set_target a = Some k"
  shows "\<exists>vlen enc val n p. set_split a = Some (vlen, enc, val) \<and>
           List.find (\<lambda>(j, name, part). var_match a name vlen) (enumerate 0 variables) = Some (k, n, p) \<and>
           k < NUM_COMPONENTS \<and> variables ! k = (n, p)"
proof -
  from assms obtain vlen enc val where sp: "set_split a = Some (vlen, enc, val)"
    by (auto simp: set_target_def split: option.splits)
  with assms obtain n p where f: "find_var a vlen = Some (k, n, p)"
    by (auto simp: set_target_def)
  then have f': "List.find (\<lambda>(j, name, part). var_match a name vlen) (enumerate 0 variables) = Some (k, n, p)"
    by (simp add: find_var_def)
  from find_enumerate_bound [OF f'] have "k < length variables" and "variables ! k = (n, p)"
    by simp_all
  then show ?thesis using sp f' by (simp add: variables_def NUM_COMPONENTS_def)
qed

lemma set_nodes_dup:
  assumes "set_target a = Some k" and "varset ! k"
  shows "set_nodes eng (a # rest) varset uh s =
         errorf ERROR_SET (''A component can only be set once per URL ('' @
                           fst (variables ! k) @ '')'') s"
proof -
  from set_targetD [OF assms(1)] obtain vlen enc val n p where
    sp: "set_split a = Some (vlen, enc, val)" and
    f: "List.find (\<lambda>(j, name, part). var_match a name vlen) (enumerate 0 variables) = Some (k, n, p)" and
    v: "variables ! k = (n, p)" by blast
  show ?thesis using assms(2) by (simp add: sp set_vars_find f v)
qed

lemma set_nodes_fresh:
  assumes "set_target a = Some k" and "\<not> varset ! k"
  shows "\<exists>uh'. set_nodes eng (a # rest) varset uh s = set_nodes eng rest (varset[k := True]) uh' s"
proof -
  from set_targetD [OF assms(1)] obtain vlen enc val n p where
    sp: "set_split a = Some (vlen, enc, val)" and
    f: "List.find (\<lambda>(j, name, part). var_match a name vlen) (enumerate 0 variables) = Some (k, n, p)"
    by blast
  show ?thesis using assms(2) by (auto simp: sp set_vars_find f)
qed

lemma set_target_bound: "set_target a = Some k \<Longrightarrow> k < NUM_COMPONENTS"
  using set_targetD by blast

lemma set_nodes_prefix:
  assumes "\<forall>a \<in> set pre. set_target a \<noteq> None"
    and "distinct (map set_target pre)"
    and "\<forall>a \<in> set pre. \<forall>k. set_target a = Some k \<longrightarrow> \<not> varset ! k"
    and "length varset = NUM_COMPONENTS"
  shows "\<exists>uh' varset'. set_nodes eng (pre @ rest) varset uh s = set_nodes eng rest varset' uh' s
           \<and> length varset' = NUM_COMPONENTS
           \<and> (\<forall>k < NUM_COMPONENTS. varset ! k \<longrightarrow> varset' ! k)
           \<and> (\<forall>k. Some k \<in> set_target ` set pre \<longrightarrow> varset' ! k)"
  using assms
proof (induction pre arbitrary: varset uh)
  case Nil
  then show ?case by auto
next
  case (Cons a pre)
  from Cons.prems(1) obtain k where k: "set_target a = Some k" by auto
  have kb: "k < length varset" using set_target_bound [OF k] Cons.prems(4) by simp
  have nk: "\<not> varset ! k" using Cons.prems(3) k by simp
  from set_nodes_fresh [OF k nk, where eng = eng and rest = "pre @ rest" and uh = uh and s = s]
  obtain uh1 where
    st: "set_nodes eng (a # pre @ rest) varset uh s = set_nodes eng (pre @ rest) (varset[k := True]) uh1 s"
    by blast
  have p1: "\<forall>a \<in> set pre. set_target a \<noteq> None" using Cons.prems(1) by simp
  have p2: "distinct (map set_target pre)" using Cons.prems(2) by simp
  have notk: "\<forall>b \<in> set pre. set_target b \<noteq> Some k" using Cons.prems(2) k by force
  have p3: "\<forall>b \<in> set pre. \<forall>j. set_target b = Some j \<longrightarrow> \<not> (varset[k := True]) ! j"
  proof (intro ballI allI impI)
    fix b j assume b: "b \<in> set pre" and j: "set_target b = Some j"
    then have "j \<noteq> k" using notk by auto
    moreover have "\<not> varset ! j" using Cons.prems(3) b j by simp
    ultimately show "\<not> (varset[k := True]) ! j" by simp
  qed
  have p4: "length (varset[k := True]) = NUM_COMPONENTS" using Cons.prems(4) by simp
  from Cons.IH [OF p1 p2 p3 p4] obtain uh' varset' where
    r: "set_nodes eng (pre @ rest) (varset[k := True]) uh1 s = set_nodes eng rest varset' uh' s"
    and l: "length varset' = NUM_COMPONENTS"
    and mono: "\<forall>j < NUM_COMPONENTS. (varset[k := True]) ! j \<longrightarrow> varset' ! j"
    and m: "\<forall>j. Some j \<in> set_target ` set pre \<longrightarrow> varset' ! j" by blast
  have vk: "varset' ! k" using mono kb Cons.prems(4) by simp
  have mono': "\<forall>j < NUM_COMPONENTS. varset ! j \<longrightarrow> varset' ! j"
  proof (intro allI impI)
    fix j assume j: "j < NUM_COMPONENTS" and v: "varset ! j"
    have "(varset[k := True]) ! j" using v kb by (cases "j = k") simp_all
    then show "varset' ! j" using mono j by simp
  qed
  have m': "\<forall>j. Some j \<in> set_target ` set (a # pre) \<longrightarrow> varset' ! j"
  proof (intro allI impI)
    fix j assume "Some j \<in> set_target ` set (a # pre)"
    then consider "j = k" | "Some j \<in> set_target ` set pre" using k by auto
    then show "varset' ! j"
    proof cases
      case 1
      then show ?thesis using vk by simp
    next
      case 2
      then show ?thesis using m by simp
    qed
  qed
  show ?case using st r l mono' m' by (intro exI conjI) simp_all
qed


lemma first_repeat:
  "\<not> distinct (map f xs) \<Longrightarrow>
   \<exists>pre a post. xs = pre @ a # post \<and> distinct (map f pre) \<and> f a \<in> f ` set pre"
proof (induction xs rule: rev_induct)
  case Nil
  then show ?case by simp
next
  case (snoc x xs)
  show ?case
  proof (cases "distinct (map f xs)")
    case True
    then have "f x \<in> f ` set xs" using snoc.prems by auto
    then have "xs @ [x] = xs @ x # [] \<and> distinct (map f xs) \<and> f x \<in> f ` set xs"
      using True by simp
    then show ?thesis by blast
  next
    case False
    from snoc.IH [OF False] obtain pre a post where
      "xs = pre @ a # post" "distinct (map f pre)" "f a \<in> f ` set pre" by blast
    then have "xs @ [x] = pre @ a # (post @ [x]) \<and> distinct (map f pre) \<and> f a \<in> f ` set pre"
      by simp
    then show ?thesis by blast
  qed
qed

lemma set_nodes_repeat:
  assumes "\<forall>b \<in> set pre. set_target b \<noteq> None"
    and "distinct (map set_target pre)"
    and "set_target a = Some k" and "Some k \<in> set_target ` set pre"
  shows "set_nodes eng (pre @ a # post) (replicate NUM_COMPONENTS False) uh s =
         errorf ERROR_SET (''A component can only be set once per URL ('' @
                           fst (variables ! k) @ '')'') s"
proof -
  have 3: "\<forall>a \<in> set pre. \<forall>k. set_target a = Some k \<longrightarrow> \<not> (replicate NUM_COMPONENTS False) ! k"
    using set_target_bound by simp
  have 4: "length (replicate NUM_COMPONENTS False) = NUM_COMPONENTS" by simp
  from set_nodes_prefix [OF assms(1,2) 3 4, where eng = eng and rest = "a # post" and uh = uh and s = s]
  obtain uh' varset' where
    r: "set_nodes eng (pre @ a # post) (replicate NUM_COMPONENTS False) uh s =
        set_nodes eng (a # post) varset' uh' s"
    and m: "\<forall>j. Some j \<in> set_target ` set pre \<longrightarrow> varset' ! j" by blast
  have "varset' ! k" using m assms(4) by simp
  from set_nodes_dup [OF assms(3) this] r show ?thesis by simp
qed

text \<open>
  C7: when every \<^verbatim>\<open>--set\<close> argument resolves to a component and two of them
  resolve to the same one (names compared without regard to case, with or without the
  \<^verbatim>\<open>:\<close> that turns encoding off, whatever the values), the set phase ends in the
  fatal error "A component can only be set once per URL", naming a component that is
  set twice: the one of the first argument that repeats an earlier target. The error
  is raised before the engine is asked to set that argument.
\<close>

theorem duplicate_set_is_fatal:
  assumes "\<forall>a \<in> set sets. set_target a \<noteq> None"
    and "\<not> distinct (map set_target sets)"
  shows "\<exists>pre a post k. sets = pre @ a # post \<and> distinct (map set_target pre) \<and>
           set_target a = Some k \<and> Some k \<in> set_target ` set pre \<and>
           set_opts eng uh (o_arg\<lparr>set_list := sets\<rparr>) s =
             errorf ERROR_SET (''A component can only be set once per URL ('' @
                               fst (variables ! k) @ '')'') s"
proof -
  from first_repeat [OF assms(2)] obtain pre a post where
    d: "sets = pre @ a # post" and dp: "distinct (map set_target pre)"
    and m: "set_target a \<in> set_target ` set pre" by blast
  from assms(1) d obtain k where k: "set_target a = Some k" by auto
  have v: "\<forall>b \<in> set pre. set_target b \<noteq> None" using assms(1) d by simp
  have mk: "Some k \<in> set_target ` set pre" using m k by simp
  have "set_opts eng uh (o_arg\<lparr>set_list := sets\<rparr>) s =
        errorf ERROR_SET (''A component can only be set once per URL ('' @
                          fst (variables ! k) @ '')'') s"
    using set_nodes_repeat [OF v dp k mk] by (simp add: set_opts_def d)
  then show ?thesis using d dp k mk by blast
qed

text \<open>The definitions that resolve a \<^verbatim>\<open>--set\<close> argument to its component.\<close>

lemmas target_defs =
  set_target_def set_split_def strchr_def find_var_def variables_def var_match_def
  strncasecmp_eq_def tolower_def char_of_def bit_Suc_0_iff

text \<open>
  \<^verbatim>\<open>host=a\<close>, \<^verbatim>\<open>port=1\<close>, \<^verbatim>\<open>HOST:=b\<close>: the third argument resolves to the
  host again and the error names \<^verbatim>\<open>host\<close>.
\<close>

theorem duplicate_set_is_fatal_witness:
  "(\<exists>pre a post k. [''host=a'', ''port=1'', ''HOST:=b''] = pre @ a # post \<and>
        distinct (map set_target pre) \<and> set_target a = Some k \<and>
        Some k \<in> set_target ` set pre \<and>
        set_opts test_engine [] (no_opts\<lparr>set_list := [''host=a'', ''port=1'', ''HOST:=b'']\<rparr>) io0 =
          errorf ERROR_SET (''A component can only be set once per URL ('' @
                            fst (variables ! k) @ '')'') io0)
   \<and> map set_target [''host=a'', ''port=1'', ''HOST:=b''] = [Some 5, Some 6, Some 5]
   \<and> set_opts test_engine [] (no_opts\<lparr>set_list := [''host=a'', ''port=1'', ''HOST:=b'']\<rparr>) io0 =
       errorf ERROR_SET ''A component can only be set once per URL (host)'' io0"
proof -
  have t: "map set_target [''host=a'', ''port=1'', ''HOST:=b''] = [Some 5, Some 6, Some 5]"
    by (simp add: target_defs)
  have h1: "\<forall>a \<in> set [''host=a'', ''port=1'', ''HOST:=b'']. set_target a \<noteq> None"
    using t by auto
  have h2: "\<not> distinct (map set_target [''host=a'', ''port=1'', ''HOST:=b''])"
    by (simp only: t) simp
  have e: "set_opts test_engine [] (no_opts\<lparr>set_list := [''host=a'', ''port=1'', ''HOST:=b'']\<rparr>) io0 =
       errorf ERROR_SET ''A component can only be set once per URL (host)'' io0"
    by (simp add: run_defs)
  show ?thesis
    using duplicate_set_is_fatal [OF h1 h2, where eng = test_engine and uh = "[]"
        and o_arg = no_opts and s = io0] t e
    by (intro conjI)
qed

section \<open>An input from which no URL can be built\<close>

lemma singleurl_incomplete:
  assumes "get_format o_arg = None"
    and "curl_url eng = Some uh"
    and "set_opts eng (set_base eng o_arg url_arg uh) o_arg s = Return uh1"
    and "append_paths eng (append_path o_arg) uh1 = Return uh2"
    and "append_queries eng (append_query o_arg) uh2 = Return uh3"
    and "fst (curl_url_get eng uh3 CURLUPART_URL
               (if urldecode o_arg then {CURLU_URLDECODE} else {})) \<noteq> CURLUE_OK"
  shows "singleurl eng o_arg url_arg s = errorf ERROR_URL ''not enough input for a URL'' s"
proof -
  obtain rc nurl where g: "curl_url_get eng uh3 CURLUPART_URL
               (if urldecode o_arg then {CURLU_URLDECODE} else {}) = (rc, nurl)"
    by force
  have rc: "rc \<noteq> CURLUE_OK" using assms(6) g by simp
  have "output_url eng o_arg uh3 s = errorf ERROR_URL ''not enough input for a URL'' s"
    using assms(1) rc by (simp add: output_url_def g split del: if_split)
  then show ?thesis
    using assms(2-5) by (simp add: singleurl_def mutate_and_output_def)
qed

lemma urllist_loop_append:
  "pre \<noteq> [] \<Longrightarrow> us \<noteq> [] \<Longrightarrow>
   urllist_loop eng o_arg (pre @ us) s =
     (case urllist_loop eng o_arg pre s of
        Return s' \<Rightarrow> urllist_loop eng o_arg us s'
      | Exit x s' \<Rightarrow> Exit x s'
      | Undefined \<Rightarrow> Undefined)"
proof (induction pre arbitrary: s)
  case Nil
  then show ?case by simp
next
  case (Cons u pre)
  show ?case
  proof (cases "pre = []")
    case True
    then show ?thesis using Cons.prems by (simp split: outcome.splits)
  next
    case False
    from Cons.IH [OF False Cons.prems(2)] show ?thesis
      using False by (simp split: outcome.splits)
  qed
qed

text \<open>
  C1, as the code has it: when the default output of an input fails to build the whole
  URL, \<^verbatim>\<open>errorf\<close> reports "not enough input for a URL" on stderr and ends the
  process with exit code 7. This holds wherever the input stands in the batch: as the
  head of the remaining command-line URLs, after any non-empty list of inputs that
  were processed, and as a line of the URL file. The inputs after it are not
  processed.
\<close>

theorem incomplete_url_is_fatal:
  assumes "get_format o_arg = None"
    and "curl_url eng = Some uh"
    and "set_opts eng (set_base eng o_arg (Some u) uh) o_arg s = Return uh1"
    and "append_paths eng (append_path o_arg) uh1 = Return uh2"
    and "append_queries eng (append_query o_arg) uh2 = Return uh3"
    and "fst (curl_url_get eng uh3 CURLUPART_URL
               (if urldecode o_arg then {CURLU_URLDECODE} else {})) \<noteq> CURLUE_OK"
  shows "singleurl eng o_arg (Some u) s = errorf ERROR_URL ''not enough input for a URL'' s
     \<and> urllist_loop eng o_arg (u # rest) s = errorf ERROR_URL ''not enough input for a URL'' s
     \<and> (\<forall>pre s0. pre \<noteq> [] \<and> urllist_loop eng o_arg pre s0 = Return s \<longrightarrow>
           urllist_loop eng o_arg (pre @ u # rest) s0 =
             errorf ERROR_URL ''not enough input for a URL'' s)
     \<and> (\<forall>stream chunk stream'. fgets stream = Some (chunk, stream') \<and> line_url chunk = Some u \<longrightarrow>
           urlfile_loop eng o_arg stream s = errorf ERROR_URL ''not enough input for a URL'' s)"
proof -
  have a: "singleurl eng o_arg (Some u) s = errorf ERROR_URL ''not enough input for a URL'' s"
    by (rule singleurl_incomplete [OF assms])
  have b: "urllist_loop eng o_arg (u # rest) s = errorf ERROR_URL ''not enough input for a URL'' s"
    by (simp add: a)
  have c: "\<forall>pre s0. pre \<noteq> [] \<and> urllist_loop eng o_arg pre s0 = Return s \<longrightarrow>
           urllist_loop eng o_arg (pre @ u # rest) s0 =
             errorf ERROR_URL ''not enough input for a URL'' s"
    by (simp add: urllist_loop_append b del: urllist_loop.simps)
  have d: "\<forall>stream chunk stream'. fgets stream = Some (chunk, stream') \<and> line_url chunk = Some u \<longrightarrow>
           urlfile_loop eng o_arg stream s = errorf ERROR_URL ''not enough input for a URL'' s"
    by (auto simp: urlfile_loop.simps [of eng o_arg] a)
  show ?thesis using a b c d by (intro conjI)
qed

text \<open>
  The empty string as the first of two URLs: the engine rejects it, the handle stays
  empty and has no host.
\<close>

theorem incomplete_url_is_fatal_witness:
  "urllist_loop test_engine no_opts ['''', ''http://example.com/''] io0 =
     errorf ERROR_URL ''not enough input for a URL'' io0"
proof -
  have h1: "get_format no_opts = None" by (simp add: no_opts_def)
  have h2: "curl_url test_engine = Some []" by (simp add: test_engine_def)
  have h3: "set_opts test_engine (set_base test_engine no_opts (Some '''') []) no_opts io0 = Return []"
    by (simp add: run_defs)
  have h4: "append_paths test_engine (append_path no_opts) [] = Return []"
    by (simp add: no_opts_def)
  have h5: "append_queries test_engine (append_query no_opts) [] = Return []"
    by (simp add: no_opts_def)
  have h6: "fst (curl_url_get test_engine [] CURLUPART_URL
               (if urldecode no_opts then {CURLU_URLDECODE} else {})) \<noteq> CURLUE_OK"
    by (simp add: run_defs)
  from incomplete_url_is_fatal [OF h1 h2 h3 h4 h5 h6, of "[''http://example.com/'']"]
  show ?thesis by (rule conjunct1 [OF conjunct2])
qed

text \<open>
  C1 as stated fails: with the URLs \<^verbatim>\<open>""\<close> and \<^verbatim>\<open>http://example.com/\<close> the run
  ends with exit code 7 and nothing on stdout; the second URL, which alone prints one
  line, is never processed.
\<close>

theorem incomplete_url_counterexample:
  "main_urls test_engine (no_opts\<lparr>url_list := ['''', ''http://example.com/'']\<rparr>) io0 =
     Exit 7 \<lparr>stdout = [],
             stderr = ''trurl error: not enough input for a URL'' @ [CHR 0x0A] @
                      ''trurl error: Try trurl -h for help'' @ [CHR 0x0A]\<rparr>
   \<and> main_urls test_engine (no_opts\<lparr>url_list := [''http://example.com/'']\<rparr>) io0 =
     Return \<lparr>stdout = ''http://example.com/'' @ [CHR 0x0A], stderr = []\<rparr>"
  by (simp add: run_defs)

section \<open>Reading URLs from a file\<close>

lemma line_url_no_newline:
  "CHR 0x0A \<notin> set chunk \<Longrightarrow> line_url chunk = None"
proof -
  assume "CHR 0x0A \<notin> set chunk"
  then have "CHR 0x0A \<notin> set (takeWhile (\<lambda>c. c \<noteq> CHR 0x00) chunk)"
    by (auto dest: set_takeWhileD)
  then show ?thesis by (simp add: line_url_def strchr_def)
qed

lemma line_url_SomeD:
  assumes "line_url chunk = Some u"
  shows "\<exists>line. line \<noteq> [] \<and> CHR 0x0A \<notin> set line \<and> CHR 0x00 \<notin> set line \<and>
           prefix (line @ [CHR 0x0A]) chunk \<and>
           u = (if last line = CHR 0x0D then butlast line else line)"
proof -
  define buffer where "buffer = takeWhile (\<lambda>c. c \<noteq> CHR 0x00) chunk"
  define line where "line = takeWhile (\<lambda>c. c \<noteq> CHR 0x0A) buffer"
  have nl: "CHR 0x0A \<in> set buffer"
    using assms by (auto simp: line_url_def strchr_def buffer_def Let_def split: if_splits)
  have eol: "strchr buffer (CHR 0x0A) = Some (length line)"
    using nl by (simp add: strchr_def line_def)
  have pos: "0 < length line" and
    u: "u = take (if buffer ! (length line - 1) = CHR 0x0D then length line - 1 else length line) buffer"
    using assms eol by (auto simp: line_url_def buffer_def [symmetric] Let_def split: if_splits)
  have ne: "line \<noteq> []" using pos by simp
  have n1: "CHR 0x0A \<notin> set line"
    by (auto simp: line_def dest: set_takeWhileD)
  have sub: "set line \<subseteq> set buffer"
    by (auto simp: line_def dest: set_takeWhileD)
  have "CHR 0x00 \<notin> set buffer"
    by (auto simp: buffer_def dest: set_takeWhileD)
  then have n0: "CHR 0x00 \<notin> set line" using sub by auto
  have "dropWhile (\<lambda>c. c \<noteq> CHR 0x0A) buffer \<noteq> []" using nl by simp
  then obtain d ds where dw: "dropWhile (\<lambda>c. c \<noteq> CHR 0x0A) buffer = d # ds"
    by (cases "dropWhile (\<lambda>c. c \<noteq> CHR 0x0A) buffer") auto
  have "d = CHR 0x0A" using hd_dropWhile [of "\<lambda>c. c \<noteq> CHR 0x0A" buffer] dw by simp
  then have b: "buffer = line @ CHR 0x0A # ds"
    using takeWhile_dropWhile_id [of "\<lambda>c. c \<noteq> CHR 0x0A" buffer] dw by (simp add: line_def)
  have "prefix buffer chunk"
    using takeWhile_dropWhile_id [of "\<lambda>c. c \<noteq> CHR 0x00" chunk]
    by (metis buffer_def prefixI)
  then have pf: "prefix (line @ [CHR 0x0A]) chunk"
    using b by (metis append.assoc append_Cons append_Nil prefix_def)
  have la: "buffer ! (length line - 1) = last line"
    using ne b by (simp add: nth_append last_conv_nth)
  have t1: "take (length line) buffer = line" using b by simp
  have t2: "take (length line - 1) buffer = butlast line"
    using b ne by (simp add: butlast_conv_take)
  have "u = (if last line = CHR 0x0D then butlast line else line)"
    using u la t1 t2 by simp
  then show ?thesis using ne n1 n0 pf by blast
qed

lemma fgets_shorter:
  "fgets stream = Some (chunk, stream') \<Longrightarrow> length stream' < length stream"
  by (auto simp: fgets_def Let_def split: if_splits)

lemma fgets_chunk_set:
  "fgets stream = Some (chunk, stream') \<Longrightarrow> set chunk \<subseteq> set stream \<and> set stream' \<subseteq> set stream"
  by (auto simp: fgets_def Let_def split: if_splits dest: in_set_takeD in_set_dropD)

lemma urlfile_loop_no_newline:
  "CHR 0x0A \<notin> set final \<Longrightarrow> urlfile_loop eng o_arg final s = Return s"
proof (induction final rule: length_induct)
  case (1 final)
  show ?case
  proof (cases "fgets final")
    case None
    then show ?thesis by (simp add: urlfile_loop.simps [of _ _ final])
  next
    case (Some cs)
    obtain chunk stream' where cs: "cs = (chunk, stream')" by (cases cs)
    from fgets_chunk_set [OF Some [unfolded cs]] "1.prems"
    have n1: "CHR 0x0A \<notin> set chunk" and n2: "CHR 0x0A \<notin> set stream'" by auto
    have "length stream' < length final" using fgets_shorter Some cs by simp
    with "1.IH" n2 have "urlfile_loop eng o_arg stream' s = Return s" by simp
    then show ?thesis
      using Some cs line_url_no_newline [OF n1]
      by (simp add: urlfile_loop.simps [of _ _ final])
  qed
qed

lemma length_takeWhile_neq:
  "x \<in> set xs \<Longrightarrow> length (takeWhile (\<lambda>c. c \<noteq> x) xs) < length xs"
  by (induction xs) auto

lemma fgets_append:
  assumes "content \<noteq> []" and "last content = CHR 0x0A"
  shows "\<exists>chunk rest. fgets content = Some (chunk, rest) \<and>
           fgets (content @ final) = Some (chunk, rest @ final) \<and>
           (rest = [] \<or> last rest = CHR 0x0A)"
proof -
  let ?P = "\<lambda>c. c \<noteq> CHR 0x0A"
  define n where "n = min 4095 (Suc (length (takeWhile ?P content)))"
  have mem: "CHR 0x0A \<in> set content" using assms by (metis last_in_set)
  then have tw: "takeWhile ?P (content @ final) = takeWhile ?P content"
    by (simp add: takeWhile_append1)
  have "length (takeWhile ?P content) < length content"
    using mem by (rule length_takeWhile_neq)
  then have le: "n \<le> length content" by (simp add: n_def)
  have f1: "fgets content = Some (take n content, drop n content)"
    using assms(1) by (simp add: fgets_def n_def Let_def)
  have "content @ final \<noteq> []" using assms(1) by simp
  then have "fgets (content @ final) =
        Some (take (min 4095 (Suc (length (takeWhile ?P (content @ final))))) (content @ final),
              drop (min 4095 (Suc (length (takeWhile ?P (content @ final))))) (content @ final))"
    by (simp add: fgets_def Let_def)
  then have "fgets (content @ final) = Some (take n (content @ final), drop n (content @ final))"
    by (simp only: tw n_def)
  then have f2: "fgets (content @ final) = Some (take n content, drop n content @ final)"
    using le by simp
  have "drop n content = [] \<or> last (drop n content) = CHR 0x0A"
    using assms(2) le by (cases "n < length content") simp_all
  then show ?thesis using f1 f2 by blast
qed

lemma urlfile_loop_final:
  assumes "CHR 0x0A \<notin> set final"
  shows "content = [] \<or> last content = CHR 0x0A \<Longrightarrow>
         urlfile_loop eng o_arg (content @ final) s = urlfile_loop eng o_arg content s"
proof (induction content arbitrary: s rule: length_induct)
  case (1 content)
  show ?case
  proof (cases "content = []")
    case True
    then show ?thesis
      using urlfile_loop_no_newline [OF assms]
      by (simp add: urlfile_loop.simps [of _ _ "[]"] fgets_def)
  next
    case False
    then have l: "last content = CHR 0x0A" using "1.prems" by simp
    from fgets_append [OF False l, of final] obtain chunk rest where
      f1: "fgets content = Some (chunk, rest)" and
      f2: "fgets (content @ final) = Some (chunk, rest @ final)" and
      r: "rest = [] \<or> last rest = CHR 0x0A" by blast
    have "length rest < length content" using fgets_shorter [OF f1] .
    with "1.IH" r have IH: "\<And>s. urlfile_loop eng o_arg (rest @ final) s = urlfile_loop eng o_arg rest s"
      by blast
    show ?thesis
      by (simp add: urlfile_loop.simps [of _ _ "content @ final"] urlfile_loop.simps [of _ _ content]
            f1 f2 IH cong: option.case_cong outcome.case_cong)
  qed
qed

lemma urlfile_loop_chunks:
  "urlfile_loop eng o_arg stream s =
   run_urls eng o_arg (List.map_filter line_url (chunks stream)) s"
proof (induction stream arbitrary: s rule: length_induct)
  case (1 stream)
  show ?case
  proof (cases "fgets stream")
    case None
    then show ?thesis
      by (simp add: urlfile_loop.simps [of _ _ stream] chunks.simps [of stream])
  next
    case (Some cs)
    obtain chunk stream' where cs: "cs = (chunk, stream')" by (cases cs)
    have "length stream' < length stream" using fgets_shorter Some cs by simp
    with "1.IH" have IH: "\<And>s. urlfile_loop eng o_arg stream' s =
        run_urls eng o_arg (List.map_filter line_url (chunks stream')) s" by blast
    show ?thesis
      using Some cs
      by (simp add: urlfile_loop.simps [of _ _ stream] chunks.simps [of stream] IH
            split: option.splits outcome.splits)
  qed
qed

lemma fgets_chunk_shape:
  assumes "fgets stream = Some (chunk, stream')"
  shows "chunk \<noteq> [] \<and> CHR 0x0A \<notin> set (butlast chunk) \<and> stream = chunk @ stream'"
proof -
  let ?P = "\<lambda>c. c \<noteq> CHR 0x0A"
  define tw where "tw = takeWhile ?P stream"
  define n where "n = min 4095 (Suc (length tw))"
  have ne: "stream \<noteq> []" and c: "chunk = take n stream" and r: "stream' = drop n stream"
    using assms by (auto simp: fgets_def Let_def n_def tw_def split: if_splits)
  have n1: "0 < n" by (simp add: n_def)
  have a: "chunk \<noteq> []" using ne n1 c by simp
  have b: "stream = chunk @ stream'" using c r by simp
  have tws: "CHR 0x0A \<notin> set tw" by (auto simp: tw_def dest: set_takeWhileD)
  have "CHR 0x0A \<notin> set (butlast chunk)"
  proof (cases "n \<le> length stream")
    case True
    have "stream = tw @ dropWhile ?P stream" by (simp add: tw_def)
    then have "take (n - 1) stream = take (n - 1) (tw @ dropWhile ?P stream)" by simp
    also have "\<dots> = take (n - 1) tw" by (simp add: n_def)
    finally have "butlast chunk = take (n - 1) tw"
      using True c by (simp add: butlast_take)
    then show ?thesis using tws by (auto dest: in_set_takeD)
  next
    case False
    then have "length tw = length stream"
      using length_takeWhile_le [of ?P stream] by (simp add: n_def tw_def)
    then have "tw = stream"
      by (metis tw_def takeWhile_eq_take take_all order_refl)
    then have "CHR 0x0A \<notin> set stream" using tws by simp
    moreover have "chunk = stream" using False c by simp
    ultimately show ?thesis by (auto dest: in_set_butlastD)
  qed
  then show ?thesis using a b by simp
qed

lemma chunks_shape:
  "c \<in> set (chunks stream) \<Longrightarrow> c \<noteq> [] \<and> CHR 0x0A \<notin> set (butlast c)"
proof (induction stream rule: length_induct)
  case (1 stream)
  show ?case
  proof (cases "fgets stream")
    case None
    then show ?thesis using "1.prems" by (simp add: chunks.simps [of stream])
  next
    case (Some cs)
    obtain chunk stream' where cs: "cs = (chunk, stream')" by (cases cs)
    have f: "fgets stream = Some (chunk, stream')" using Some cs by simp
    have "c = chunk \<or> c \<in> set (chunks stream')"
      using "1.prems" f by (simp add: chunks.simps [of stream])
    then show ?thesis
    proof
      assume "c = chunk"
      then show ?thesis using fgets_chunk_shape [OF f] by simp
    next
      assume m: "c \<in> set (chunks stream')"
      have "length stream' < length stream" by (rule fgets_shorter [OF f])
      with "1.IH" m show ?thesis by blast
    qed
  qed
qed

lemma line_url_line:
  assumes "CHR 0x0A \<notin> set l"
  shows "line_url (l @ [CHR 0x0A]) =
         (if l = [] \<or> CHR 0x00 \<in> set l then None
          else Some (if last l = CHR 0x0D then butlast l else l))"
proof (cases "CHR 0x00 \<in> set l")
  case True
  have "set (takeWhile (\<lambda>c. c \<noteq> CHR 0x00) (l @ [CHR 0x0A])) \<subseteq> set l"
    using True by (simp add: takeWhile_append1 [where x = "CHR 0x00"]) (auto dest: set_takeWhileD)
  then have "CHR 0x0A \<notin> set (takeWhile (\<lambda>c. c \<noteq> CHR 0x00) (l @ [CHR 0x0A]))"
    using assms by auto
  then show ?thesis using True by (simp add: line_url_def strchr_def Let_def)
next
  case False
  then have b: "takeWhile (\<lambda>c. c \<noteq> CHR 0x00) (l @ [CHR 0x0A]) = l @ [CHR 0x0A]"
    by (auto simp: takeWhile_eq_all_conv)
  have st: "strchr (l @ [CHR 0x0A]) (CHR 0x0A) = Some (length l)"
    by (rule strchr_eq_prefix [OF assms])
  show ?thesis
  proof (cases "l = []")
    case True
    then show ?thesis using st by (simp add: line_url_def b)
  next
    case ne: False
    have "(l @ [CHR 0x0A]) ! (length l - 1) = last l"
      using ne by (simp add: nth_append last_conv_nth)
    then show ?thesis
      using ne False st by (simp add: line_url_def b butlast_conv_take)
  qed
qed

lemma chunk_line_url:
  assumes "c \<in> set (chunks stream)"
  shows "line_url c = Some u \<longleftrightarrow>
         (\<exists>line. c = line @ [CHR 0x0A] \<and> line \<noteq> [] \<and> CHR 0x0A \<notin> set line \<and>
                 CHR 0x00 \<notin> set line \<and>
                 u = (if last line = CHR 0x0D then butlast line else line))"
proof
  assume "line_url c = Some u"
  from line_url_SomeD [OF this] obtain line where
    l: "line \<noteq> []" "CHR 0x0A \<notin> set line" "CHR 0x00 \<notin> set line"
    and p: "prefix (line @ [CHR 0x0A]) c"
    and u: "u = (if last line = CHR 0x0D then butlast line else line)" by blast
  from p obtain r where c: "c = line @ CHR 0x0A # r" by (auto simp: prefix_def)
  have "r = []"
  proof (rule ccontr)
    assume "r \<noteq> []"
    then have "butlast c = line @ CHR 0x0A # butlast r" using c by (simp add: butlast_append)
    then show False using chunks_shape [OF assms] by simp
  qed
  then show "\<exists>line. c = line @ [CHR 0x0A] \<and> line \<noteq> [] \<and> CHR 0x0A \<notin> set line \<and>
                 CHR 0x00 \<notin> set line \<and>
                 u = (if last line = CHR 0x0D then butlast line else line)"
    using c l u by blast
next
  assume "\<exists>line. c = line @ [CHR 0x0A] \<and> line \<noteq> [] \<and> CHR 0x0A \<notin> set line \<and>
                 CHR 0x00 \<notin> set line \<and>
                 u = (if last line = CHR 0x0D then butlast line else line)"
  then obtain line where c: "c = line @ [CHR 0x0A]" and l: "line \<noteq> []" "CHR 0x0A \<notin> set line"
    "CHR 0x00 \<notin> set line" and u: "u = (if last line = CHR 0x0D then butlast line else line)"
    by blast
  show "line_url c = Some u"
    using line_url_line [OF l(2)] l u c by simp
qed


lemma fgets_line:
  assumes "CHR 0x0A \<notin> set l" and "length l \<le> 4094"
  shows "fgets (l @ CHR 0x0A # rest) = Some (l @ [CHR 0x0A], rest)"
proof -
  have "takeWhile (\<lambda>c. c \<noteq> CHR 0x0A) (l @ CHR 0x0A # rest) = l"
    by (rule takeWhile_neq_prefix [OF assms(1)])
  then show ?thesis using assms(2) by (simp add: fgets_def Let_def min_def)
qed

lemma chunks_no_newline:
  "CHR 0x0A \<notin> set final \<Longrightarrow> List.map_filter line_url (chunks final) = []"
proof (induction final rule: length_induct)
  case (1 final)
  show ?case
  proof (cases "fgets final")
    case None
    then show ?thesis by (simp add: chunks.simps [of final])
  next
    case (Some cs)
    obtain chunk stream' where cs: "cs = (chunk, stream')" by (cases cs)
    from fgets_chunk_set [OF Some [unfolded cs]] "1.prems"
    have n1: "CHR 0x0A \<notin> set chunk" and n2: "CHR 0x0A \<notin> set stream'" by auto
    have "length stream' < length final" using fgets_shorter Some cs by simp
    with "1.IH" n2 have "List.map_filter line_url (chunks stream') = []" by simp
    then show ?thesis
      using Some cs line_url_no_newline [OF n1] by (simp add: chunks.simps [of final])
  qed
qed

lemma chunks_lines:
  assumes "\<forall>l \<in> set ls. CHR 0x0A \<notin> set l \<and> length l \<le> 4094"
  shows "chunks (concat (map (\<lambda>l. l @ [CHR 0x0A]) ls) @ final) =
         map (\<lambda>l. l @ [CHR 0x0A]) ls @ chunks final"
  using assms
proof (induction ls)
  case Nil
  then show ?case by simp
next
  case (Cons l ls)
  have a: "CHR 0x0A \<notin> set l" and b: "length l \<le> 4094" using Cons.prems by simp_all
  have "fgets (l @ CHR 0x0A # (concat (map (\<lambda>l. l @ [CHR 0x0A]) ls) @ final)) =
        Some (l @ [CHR 0x0A], concat (map (\<lambda>l. l @ [CHR 0x0A]) ls) @ final)"
    by (rule fgets_line [OF a b])
  then have "chunks (concat (map (\<lambda>l. l @ [CHR 0x0A]) (l # ls)) @ final) =
        (l @ [CHR 0x0A]) # chunks (concat (map (\<lambda>l. l @ [CHR 0x0A]) ls) @ final)"
    by (simp add: chunks.simps [of "l @ CHR 0x0A # (concat (map (\<lambda>l. l @ [CHR 0x0A]) ls) @ final)"])
  then show ?case using Cons by simp
qed

lemma map_filter_append:
  "List.map_filter f (xs @ ys) = List.map_filter f xs @ List.map_filter f ys"
  by (simp add: List.map_filter_def)

lemma map_filter_lines:
  assumes "\<forall>l \<in> set ls. CHR 0x0A \<notin> set l"
  shows "List.map_filter line_url (map (\<lambda>l. l @ [CHR 0x0A]) ls) =
         List.map_filter (\<lambda>l. if l = [] \<or> CHR 0x00 \<in> set l then None
                               else Some (if last l = CHR 0x0D then butlast l else l)) ls"
  using assms by (induction ls) (simp_all add: line_url_line)

lemma urlfile_loop_lines:
  assumes "\<forall>l \<in> set ls. CHR 0x0A \<notin> set l \<and> length l \<le> 4094" and "CHR 0x0A \<notin> set final"
  shows "urlfile_loop eng o_arg (concat (map (\<lambda>l. l @ [CHR 0x0A]) ls) @ final) s =
         run_urls eng o_arg
           (List.map_filter (\<lambda>l. if l = [] \<or> CHR 0x00 \<in> set l then None
                                 else Some (if last l = CHR 0x0D then butlast l else l)) ls) s"
proof -
  have n: "\<forall>l \<in> set ls. CHR 0x0A \<notin> set l" using assms(1) by simp
  show ?thesis
    by (simp only: urlfile_loop_chunks chunks_lines [OF assms(1)] map_filter_append
          chunks_no_newline [OF assms(2)] map_filter_lines [OF n] append_Nil2)
qed

text \<open>
  C10: the run over a stream is \<^verbatim>\<open>singleurl\<close> called, in order, on exactly the
  URLs of the chunks \<^verbatim>\<open>fgets\<close> reads for which the test of line 532 holds, and on
  nothing else.
  A chunk of the stream passes the test exactly when it is a line of at least one
  byte, with no NUL byte, ended by a newline; the URL is the line without the newline
  and without one carriage return before it. A chunk without a newline never passes.
  For a file whose terminated lines each fit the buffer (at most 4094 bytes before the
  newline), followed by a last line without a newline, the chunks are the lines: the
  run calls \<^verbatim>\<open>singleurl\<close> on the URL of each terminated line that is not empty and
  holds no NUL byte, and never on the last line. A longer line is cut by \<^verbatim>\<open>fgets\<close>
  into chunks, of which only the last one holds the newline.
  Whatever the file, a last line without a newline leaves the run as it is without
  that line.
\<close>

theorem only_terminated_lines_run:
  "urlfile_loop eng o_arg stream s =
     run_urls eng o_arg (List.map_filter line_url (chunks stream)) s
   \<and> (\<forall>c u. c \<in> set (chunks stream) \<longrightarrow>
        (line_url c = Some u \<longleftrightarrow>
         (\<exists>line. c = line @ [CHR 0x0A] \<and> line \<noteq> [] \<and> CHR 0x0A \<notin> set line \<and>
                 CHR 0x00 \<notin> set line \<and>
                 u = (if last line = CHR 0x0D then butlast line else line))))
   \<and> (\<forall>c. CHR 0x0A \<notin> set c \<longrightarrow> line_url c = None)
   \<and> ((\<forall>l \<in> set ls. CHR 0x0A \<notin> set l \<and> length l \<le> 4094) \<and> CHR 0x0A \<notin> set final \<longrightarrow>
        urlfile_loop eng o_arg (concat (map (\<lambda>l. l @ [CHR 0x0A]) ls) @ final) s =
          run_urls eng o_arg
            (List.map_filter (\<lambda>l. if l = [] \<or> CHR 0x00 \<in> set l then None
                                  else Some (if last l = CHR 0x0D then butlast l else l)) ls) s)
   \<and> (CHR 0x0A \<notin> set final \<and> (content = [] \<or> last content = CHR 0x0A) \<longrightarrow>
        urlfile_loop eng o_arg (content @ final) s = urlfile_loop eng o_arg content s)"
proof (intro conjI allI impI)
  show "urlfile_loop eng o_arg stream s =
     run_urls eng o_arg (List.map_filter line_url (chunks stream)) s"
    by (rule urlfile_loop_chunks)
next
  fix c u assume "c \<in> set (chunks stream)"
  then show "line_url c = Some u \<longleftrightarrow>
         (\<exists>line. c = line @ [CHR 0x0A] \<and> line \<noteq> [] \<and> CHR 0x0A \<notin> set line \<and>
                 CHR 0x00 \<notin> set line \<and>
                 u = (if last line = CHR 0x0D then butlast line else line))"
    by (rule chunk_line_url)
next
  fix c :: string assume "CHR 0x0A \<notin> set c"
  then show "line_url c = None" by (rule line_url_no_newline)
next
  assume h: "(\<forall>l \<in> set ls. CHR 0x0A \<notin> set l \<and> length l \<le> 4094) \<and> CHR 0x0A \<notin> set final"
  show "urlfile_loop eng o_arg (concat (map (\<lambda>l. l @ [CHR 0x0A]) ls) @ final) s =
          run_urls eng o_arg
            (List.map_filter (\<lambda>l. if l = [] \<or> CHR 0x00 \<in> set l then None
                                  else Some (if last l = CHR 0x0D then butlast l else l)) ls) s"
    by (rule urlfile_loop_lines [OF conjunct1 [OF h] conjunct2 [OF h]])
next
  assume h: "CHR 0x0A \<notin> set final \<and> (content = [] \<or> last content = CHR 0x0A)"
  show "urlfile_loop eng o_arg (content @ final) s = urlfile_loop eng o_arg content s"
    by (rule urlfile_loop_final [OF conjunct1 [OF h] conjunct2 [OF h]])
qed

text \<open>
  A file of \<^verbatim>\<open>http://a.example/\<close> ended by CR LF, an empty line, and
  \<^verbatim>\<open>http://b.example/\<close> with no newline: only the first URL is printed.
\<close>

theorem only_terminated_lines_run_witness:
  "urlfile_loop test_engine no_opts
     (''http://a.example/'' @ [CHR 0x0D, CHR 0x0A] @ [CHR 0x0A] @ ''http://b.example/'') io0 =
     Return \<lparr>stdout = ''http://a.example/'' @ [CHR 0x0A], stderr = []\<rparr>
   \<and> urlfile_loop test_engine no_opts
     (''http://a.example/'' @ [CHR 0x0D, CHR 0x0A] @ ''http://b.example/'') io0 =
     urlfile_loop test_engine no_opts (''http://a.example/'' @ [CHR 0x0D, CHR 0x0A]) io0
   \<and> line_url (''http://a.example/'' @ [CHR 0x0D, CHR 0x0A]) = Some ''http://a.example/''
   \<and> line_url ''http://b.example/'' = None"
proof -
  let ?l1 = "''http://a.example/'' @ [CHR 0x0D]"
  let ?fin = "''http://b.example/''"
  let ?S = "''http://a.example/'' @ [CHR 0x0D, CHR 0x0A] @ [CHR 0x0A] @ ''http://b.example/''"
  note T = only_terminated_lines_run [where eng = test_engine and o_arg = no_opts and s = io0
      and stream = ?S and ls = "[?l1, []]" and final = ?fin
      and content = "''http://a.example/'' @ [CHR 0x0D, CHR 0x0A]"]
  have h4: "(\<forall>l \<in> set [?l1, []]. CHR 0x0A \<notin> set l \<and> length l \<le> 4094) \<and> CHR 0x0A \<notin> set ?fin"
    by simp
  have h5: "CHR 0x0A \<notin> set ?fin \<and>
            (''http://a.example/'' @ [CHR 0x0D, CHR 0x0A] = [] \<or>
             last (''http://a.example/'' @ [CHR 0x0D, CHR 0x0A]) = CHR 0x0A)" by simp
  have h3: "CHR 0x0A \<notin> set ?fin" by simp
  have ch: "chunks ?S = [''http://a.example/'' @ [CHR 0x0D, CHR 0x0A], [CHR 0x0A], ?fin]"
    by code_simp
  have h2: "''http://a.example/'' @ [CHR 0x0D, CHR 0x0A] \<in> set (chunks ?S)"
    by (simp only: ch) simp
  have ex: "\<exists>line. ''http://a.example/'' @ [CHR 0x0D, CHR 0x0A] = line @ [CHR 0x0A] \<and> line \<noteq> [] \<and>
              CHR 0x0A \<notin> set line \<and> CHR 0x00 \<notin> set line \<and>
              ''http://a.example/'' = (if last line = CHR 0x0D then butlast line else line)"
    by (rule exI [of _ ?l1]) simp
  note C2 = conjunct1 [OF conjunct2 [OF T], rule_format, OF h2]
  note C3 = conjunct1 [OF conjunct2 [OF conjunct2 [OF T]], rule_format, OF h3]
  note C4 = mp [OF conjunct1 [OF conjunct2 [OF conjunct2 [OF conjunct2 [OF T]]]] h4]
  note C5 = mp [OF conjunct2 [OF conjunct2 [OF conjunct2 [OF conjunct2 [OF T]]]] h5]
  have r: "run_urls test_engine no_opts
            (List.map_filter (\<lambda>l. if l = [] \<or> CHR 0x00 \<in> set l then None
                                  else Some (if last l = CHR 0x0D then butlast l else l))
               [?l1, []]) io0 =
           Return \<lparr>stdout = ''http://a.example/'' @ [CHR 0x0A], stderr = []\<rparr>"
    by (simp add: run_defs)
  have c1: "urlfile_loop test_engine no_opts ?S io0 =
     Return \<lparr>stdout = ''http://a.example/'' @ [CHR 0x0A], stderr = []\<rparr>"
    using C4 r by simp
  have c2: "urlfile_loop test_engine no_opts
     (''http://a.example/'' @ [CHR 0x0D, CHR 0x0A] @ ''http://b.example/'') io0 =
     urlfile_loop test_engine no_opts (''http://a.example/'' @ [CHR 0x0D, CHR 0x0A]) io0"
    using C5 by simp
  have c3: "line_url (''http://a.example/'' @ [CHR 0x0D, CHR 0x0A]) = Some ''http://a.example/''"
    using C2 ex by blast
  show ?thesis using c1 c2 c3 C3 by (intro conjI)
qed


end
